theory Spec2Isabelle
  imports Main "HOL-Library.Word" "HOL-Library.Multiset"
begin

section \<open>The seed script \<^verbatim>\<open>scripts/seed.js\<close>\<close>

text \<open>
  The script connects to a PostgreSQL database, runs four loaders
  (\<^verbatim>\<open>seedUsers\<close>, \<^verbatim>\<open>seedCustomers\<close>, \<^verbatim>\<open>seedInvoices\<close>, \<^verbatim>\<open>seedRevenue\<close>) one after the
  other and closes the connection. Each loader issues idempotent DDL, then dispatches one
  \<^verbatim>\<open>INSERT ... ON CONFLICT (key) DO NOTHING\<close> per fixture record and awaits
  \<^verbatim>\<open>Promise.all\<close> of them.

  The embedding has three layers:
  \<^item> the database: the four tables with the columns and constraints of the script's own
    \<^verbatim>\<open>CREATE TABLE\<close> statements, and the effect of each SQL statement of the script;
  \<^item> the runtime: awaiting one statement, awaiting \<^verbatim>\<open>Promise.all\<close> of a batch,
    \<^verbatim>\<open>try/catch\<close>, the console;
  \<^item> the script: the four loaders, \<^verbatim>\<open>main\<close> and the top-level
    \<^verbatim>\<open>main().catch(...)\<close>, written statement by statement.

  Everything the script does not decide is a parameter: the fixture records (the module
  \<^verbatim>\<open>placeholder-data.js\<close>), and an environment holding the values drawn by
  \<^verbatim>\<open>uuid_generate_v4()\<close>, the bcrypt library, the order in which the promises of a batch
  settle, and failures of the connection or the server.
\<close>

subsection \<open>Values, fixture records and table rows\<close>

text \<open>
  A UUID is a 128-bit value. A fixture field is \<open>None\<close> when the JavaScript value is
  \<^verbatim>\<open>null\<close> or \<^verbatim>\<open>undefined\<close> (the driver sends both as SQL \<^verbatim>\<open>NULL\<close>); otherwise it
  is taken as a value of the column's type.
\<close>

type_synonym uuid = "128 word"

type_synonym date = "nat \<times> nat \<times> nat"

record user =
  user_id :: "uuid option"
  user_name :: "string option"
  user_email :: "string option"
  user_password :: "string option"

record customer =
  customer_id :: "uuid option"
  customer_name :: "string option"
  customer_email :: "string option"
  customer_image_url :: "string option"

record invoice =
  invoice_customer_id :: "uuid option"
  invoice_amount :: "int option"
  invoice_status :: "string option"
  invoice_date :: "date option"

record rev =
  rev_month :: "string option"
  rev_revenue :: "int option"

record fixtures =
  users :: "user list"
  customers :: "customer list"
  invoices :: "invoice list"
  revenue :: "rev list"

text \<open>Rows as the tables store them: every column is \<^verbatim>\<open>NOT NULL\<close>.\<close>

record users_row =
  u_id :: uuid
  u_name :: string
  u_email :: string
  u_password :: string

record customers_row =
  c_id :: uuid
  c_name :: string
  c_email :: string
  c_image_url :: string

record invoices_row =
  i_id :: uuid
  i_customer_id :: uuid
  i_amount :: int
  i_status :: string
  i_date :: date

record revenue_row =
  r_month :: string
  r_revenue :: int

text \<open>
  The database: whether the extension \<^verbatim>\<open>uuid-ossp\<close> is installed, and each table
  (\<open>None\<close> while it does not exist) with its rows in insertion order.
\<close>

record database =
  uuid_ossp :: bool
  users_table :: "users_row list option"
  customers_table :: "customers_row list option"
  invoices_table :: "invoices_row list option"
  revenue_table :: "revenue_row list option"

definition empty_database :: database where
  "empty_database =
     \<lparr>uuid_ossp = False, users_table = None, customers_table = None,
      invoices_table = None, revenue_table = None\<rparr>"

datatype phase = Users | Customers | Invoices | Revenue

definition row_count :: "phase \<Rightarrow> database \<Rightarrow> nat" where
  "row_count p db =
     (case p of
        Users \<Rightarrow> (case users_table db of None \<Rightarrow> 0 | Some rows \<Rightarrow> length rows)
      | Customers \<Rightarrow> (case customers_table db of None \<Rightarrow> 0 | Some rows \<Rightarrow> length rows)
      | Invoices \<Rightarrow> (case invoices_table db of None \<Rightarrow> 0 | Some rows \<Rightarrow> length rows)
      | Revenue \<Rightarrow> (case revenue_table db of None \<Rightarrow> 0 | Some rows \<Rightarrow> length rows))"

subsection \<open>The SQL statements of the script\<close>

datatype error =
    NotNullViolation string
  | UniqueViolation string
  | StringTooLong nat
  | IntegerOutOfRange
  | InvalidTextRepresentation
  | UndefinedTable string
  | UndefinedFunction string
  | HashError
  | Fault string

datatype sql_result = CommandOk | Inserted | ConflictSkipped

text \<open>
  One constructor per statement text of the script. \<open>InsertInvoice\<close> has no id
  argument: the script's column list is \<^verbatim>\<open>(customer_id, amount, status, date)\<close>.
\<close>

datatype sql_stmt =
    CreateExtension
  | CreateUsers
  | CreateCustomers
  | CreateInvoices
  | CreateRevenue
  | InsertUser "uuid option" "string option" "string option" "string option"
  | InsertCustomer "uuid option" "string option" "string option" "string option"
  | InsertInvoice "uuid option" "int option" "string option" "date option"
  | InsertRevenue "string option" "int option"

definition and_then :: "error + 'a \<Rightarrow> ('a \<Rightarrow> error + 'b) \<Rightarrow> error + 'b" where
  "and_then r k = (case r of Inl e \<Rightarrow> Inl e | Inr v \<Rightarrow> k v)"

text \<open>
  \<^verbatim>\<open>VARCHAR(n)\<close>: a longer string is an error unless the excess is all spaces, which
  is cut off. \<^verbatim>\<open>INT\<close>: 32 bits, signed; the driver sends a number as the text
  JavaScript prints for it, which from \<^verbatim>\<open>1e21\<close> on is in exponent form and no integer
  literal to the server. \<^verbatim>\<open>NOT NULL\<close>: the value must be present.
\<close>

definition varchar :: "nat \<Rightarrow> string option \<Rightarrow> error + string option" where
  "varchar n v =
     (case v of
        None \<Rightarrow> Inr None
      | Some s \<Rightarrow>
          if length s \<le> n then Inr (Some s)
          else if list_all (\<lambda>c. c = CHR '' '') (drop n s) then Inr (Some (take n s))
          else Inl (StringTooLong n))"

definition int4 :: "int option \<Rightarrow> error + int option" where
  "int4 v =
     (case v of
        None \<Rightarrow> Inr None
      | Some x \<Rightarrow>
          if 10 ^ 21 \<le> \<bar>x\<bar> then Inl InvalidTextRepresentation
          else if - (2 ^ 31) \<le> x \<and> x < 2 ^ 31 then Inr (Some x)
          else Inl IntegerOutOfRange)"

definition not_null :: "string \<Rightarrow> 'a option \<Rightarrow> error + 'a" where
  "not_null column v = (case v of None \<Rightarrow> Inl (NotNullViolation column) | Some x \<Rightarrow> Inr x)"

text \<open>
  \<^verbatim>\<open>INSERT INTO users (id, name, email, password) VALUES (...) ON CONFLICT (id) DO NOTHING\<close>
  on the table
  \<^verbatim>\<open>(id UUID DEFAULT uuid_generate_v4() PRIMARY KEY, name VARCHAR(255) NOT NULL,
  email TEXT NOT NULL UNIQUE, password TEXT NOT NULL)\<close>:
  the values are coerced to the column types, the \<^verbatim>\<open>NOT NULL\<close> constraints are
  checked, then the arbiter index on \<open>id\<close> decides between skipping and inserting, and
  an insertion still has to pass the other unique index (\<open>email\<close>).
\<close>

definition insert_user ::
  "uuid option \<Rightarrow> string option \<Rightarrow> string option \<Rightarrow> string option \<Rightarrow> database
     \<Rightarrow> error + sql_result \<times> database" where
  "insert_user id' name email password db =
     (case users_table db of
        None \<Rightarrow> Inl (UndefinedTable ''users'')
      | Some rows \<Rightarrow>
          and_then (varchar 255 name) (\<lambda>name.
          and_then (not_null ''id'' id') (\<lambda>i.
          and_then (not_null ''name'' name) (\<lambda>n.
          and_then (not_null ''email'' email) (\<lambda>e.
          and_then (not_null ''password'' password) (\<lambda>p.
            if i \<in> set (map u_id rows) then Inr (ConflictSkipped, db)
            else if e \<in> set (map u_email rows) then Inl (UniqueViolation ''users_email_key'')
            else Inr (Inserted,
              db\<lparr>users_table :=
                Some (rows @ [\<lparr>u_id = i, u_name = n, u_email = e, u_password = p\<rparr>])\<rparr>)))))))"

text \<open>
  \<^verbatim>\<open>INSERT INTO customers (id, name, email, image_url) ... ON CONFLICT (id) DO NOTHING\<close>
  on \<^verbatim>\<open>(id UUID DEFAULT uuid_generate_v4() PRIMARY KEY, name VARCHAR(255) NOT NULL,
  email VARCHAR(255) NOT NULL, image_url VARCHAR(255) NOT NULL)\<close>.
\<close>

definition insert_customer ::
  "uuid option \<Rightarrow> string option \<Rightarrow> string option \<Rightarrow> string option \<Rightarrow> database
     \<Rightarrow> error + sql_result \<times> database" where
  "insert_customer id' name email image_url db =
     (case customers_table db of
        None \<Rightarrow> Inl (UndefinedTable ''customers'')
      | Some rows \<Rightarrow>
          and_then (varchar 255 name) (\<lambda>name.
          and_then (varchar 255 email) (\<lambda>email.
          and_then (varchar 255 image_url) (\<lambda>image_url.
          and_then (not_null ''id'' id') (\<lambda>i.
          and_then (not_null ''name'' name) (\<lambda>n.
          and_then (not_null ''email'' email) (\<lambda>e.
          and_then (not_null ''image_url'' image_url) (\<lambda>u.
            if i \<in> set (map c_id rows) then Inr (ConflictSkipped, db)
            else Inr (Inserted,
              db\<lparr>customers_table :=
                Some (rows @ [\<lparr>c_id = i, c_name = n, c_email = e, c_image_url = u\<rparr>])\<rparr>)))))))))"

text \<open>
  \<^verbatim>\<open>INSERT INTO invoices (customer_id, amount, status, date) ... ON CONFLICT (id) DO NOTHING\<close>
  on \<^verbatim>\<open>(id UUID DEFAULT uuid_generate_v4() PRIMARY KEY, customer_id UUID NOT NULL,
  amount INT NOT NULL, status VARCHAR(255) NOT NULL, date DATE NOT NULL)\<close>.
  The statement gives no id, so the column default is evaluated: \<open>generated\<close> is the
  value \<^verbatim>\<open>uuid_generate_v4()\<close> returns for this row. No constraint refers to the
  customers table.
\<close>

definition insert_invoice ::
  "uuid \<Rightarrow> uuid option \<Rightarrow> int option \<Rightarrow> string option \<Rightarrow> date option \<Rightarrow> database
     \<Rightarrow> error + sql_result \<times> database" where
  "insert_invoice generated customer_id' amount status date' db =
     (case invoices_table db of
        None \<Rightarrow> Inl (UndefinedTable ''invoices'')
      | Some rows \<Rightarrow>
          and_then (int4 amount) (\<lambda>amount.
          and_then (varchar 255 status) (\<lambda>status.
          and_then (not_null ''customer_id'' customer_id') (\<lambda>c.
          and_then (not_null ''amount'' amount) (\<lambda>a.
          and_then (not_null ''status'' status) (\<lambda>s.
          and_then (not_null ''date'' date') (\<lambda>d.
            if generated \<in> set (map i_id rows) then Inr (ConflictSkipped, db)
            else Inr (Inserted,
              db\<lparr>invoices_table :=
                Some (rows @ [\<lparr>i_id = generated, i_customer_id = c, i_amount = a,
                               i_status = s, i_date = d\<rparr>])\<rparr>))))))))"

text \<open>
  \<^verbatim>\<open>INSERT INTO revenue (month, revenue) ... ON CONFLICT (month) DO NOTHING\<close>
  on \<^verbatim>\<open>(month VARCHAR(4) NOT NULL UNIQUE, revenue INT NOT NULL)\<close>.
  The server reads the integer parameter when it binds the statement, before the
  execution coerces the month to the column's length.
\<close>

definition insert_revenue ::
  "string option \<Rightarrow> int option \<Rightarrow> database \<Rightarrow> error + sql_result \<times> database" where
  "insert_revenue month' revenue' db =
     (case revenue_table db of
        None \<Rightarrow> Inl (UndefinedTable ''revenue'')
      | Some rows \<Rightarrow>
          and_then (int4 revenue') (\<lambda>revenue'.
          and_then (varchar 4 month') (\<lambda>month'.
          and_then (not_null ''month'' month') (\<lambda>m.
          and_then (not_null ''revenue'' revenue') (\<lambda>r.
            if m \<in> set (map r_month rows) then Inr (ConflictSkipped, db)
            else Inr (Inserted,
              db\<lparr>revenue_table := Some (rows @ [\<lparr>r_month = m, r_revenue = r\<rparr>])\<rparr>))))))"

text \<open>
  \<^verbatim>\<open>CREATE EXTENSION IF NOT EXISTS "uuid-ossp"\<close> and the four
  \<^verbatim>\<open>CREATE TABLE IF NOT EXISTS\<close>: an existing table is left as it is; creating one of
  the three tables whose id defaults to \<^verbatim>\<open>uuid_generate_v4()\<close> needs the extension.
\<close>

fun exec_sql :: "uuid \<Rightarrow> sql_stmt \<Rightarrow> database \<Rightarrow> error + sql_result \<times> database" where
  "exec_sql g CreateExtension db = Inr (CommandOk, db\<lparr>uuid_ossp := True\<rparr>)"
| "exec_sql g CreateUsers db =
     (if users_table db \<noteq> None then Inr (CommandOk, db)
      else if \<not> uuid_ossp db then Inl (UndefinedFunction ''uuid_generate_v4'')
      else Inr (CommandOk, db\<lparr>users_table := Some []\<rparr>))"
| "exec_sql g CreateCustomers db =
     (if customers_table db \<noteq> None then Inr (CommandOk, db)
      else if \<not> uuid_ossp db then Inl (UndefinedFunction ''uuid_generate_v4'')
      else Inr (CommandOk, db\<lparr>customers_table := Some []\<rparr>))"
| "exec_sql g CreateInvoices db =
     (if invoices_table db \<noteq> None then Inr (CommandOk, db)
      else if \<not> uuid_ossp db then Inl (UndefinedFunction ''uuid_generate_v4'')
      else Inr (CommandOk, db\<lparr>invoices_table := Some []\<rparr>))"
| "exec_sql g CreateRevenue db =
     (if revenue_table db \<noteq> None then Inr (CommandOk, db)
      else Inr (CommandOk, db\<lparr>revenue_table := Some []\<rparr>))"
| "exec_sql g (InsertUser i n e p) db = insert_user i n e p db"
| "exec_sql g (InsertCustomer i n e u) db = insert_customer i n e u db"
| "exec_sql g (InsertInvoice c a s d) db = insert_invoice g c a s d db"
| "exec_sql g (InsertRevenue m r) db = insert_revenue m r db"

subsection \<open>The environment\<close>

text \<open>
  An operation is one promise of the script: connecting, closing, a DDL statement of a
  loader, or the promise of record \<open>i\<close> of a loader's batch.
\<close>

datatype op =
    OpConnect
  | OpEnd
  | OpExtension phase
  | OpCreate phase
  | OpInsert phase nat

text \<open>
  What a run does not decide:
  \<^item> \<open>fault op = Some e\<close>: the operation fails with \<open>e\<close> before it reaches the tables
    (connection loss, missing privilege);
  \<^item> \<open>uuid_generate_v4 op\<close>: the value the server's generator returns while it executes
    \<open>op\<close>;
  \<^item> \<open>settle_choices p\<close>: the scheduler's choices for the batch of phase \<open>p\<close>, which fix
    the order in which its promises settle;
  \<^item> the bcrypt library: \<open>bcrypt_hash plaintext rounds salt\<close>, the salt drawn for record
    \<open>i\<close>, and \<open>bcrypt_compare plaintext stored\<close>.
\<close>

record env =
  fault :: "op \<Rightarrow> error option"
  uuid_generate_v4 :: "op \<Rightarrow> uuid"
  settle_choices :: "phase \<Rightarrow> nat list"
  bcrypt_salt :: "nat \<Rightarrow> string"
  bcrypt_hash :: "string \<Rightarrow> nat \<Rightarrow> string \<Rightarrow> string"
  bcrypt_compare :: "string \<Rightarrow> string \<Rightarrow> bool"

text \<open>
  The order in which the pending promises settle: each choice picks one of those still
  pending; when the choices run out the rest settle in submission order.
\<close>

definition remove_nth :: "nat \<Rightarrow> 'a list \<Rightarrow> 'a list" where
  "remove_nth k xs = take k xs @ drop (Suc k) xs"

function settle_order :: "nat list \<Rightarrow> 'a list \<Rightarrow> 'a list" where
  "settle_order cs [] = []"
| "settle_order [] (x # xs) = x # xs"
| "settle_order (c # cs) (x # xs) =
     (x # xs) ! (c mod length (x # xs))
       # settle_order cs (remove_nth (c mod length (x # xs)) (x # xs))"
  by pat_completeness auto
termination
  by (relation "measure (\<lambda>(cs, xs). length xs)") (auto simp: remove_nth_def)

subsection \<open>The runtime: promises, \<^verbatim>\<open>await\<close>, \<^verbatim>\<open>try/catch\<close>, the console\<close>

datatype event =
    Settled op "error + sql_result"
  | LogCreated phase
  | LogSeeded phase nat
  | LogSeedError phase error
  | LogMainError error

type_synonym task = "op \<times> (error + sql_stmt)"

text \<open>
  What an async function has done when its promise settles: its result (\<open>Inl\<close> when it
  rejects), the database at that moment, what happened until then, and the promises it
  dispatched that are still pending.
\<close>

record 'a outcome =
  result :: "error + 'a"
  db_after :: database
  events :: "event list"
  pending :: "task list"

definition client_sql ::
  "env \<Rightarrow> op \<Rightarrow> sql_stmt \<Rightarrow> database \<Rightarrow> (error + sql_result) \<times> database" where
  "client_sql env op stmt db =
     (case fault env op of
        Some e \<Rightarrow> (Inl e, db)
      | None \<Rightarrow>
          (case exec_sql (uuid_generate_v4 env op) stmt db of
             Inl e \<Rightarrow> (Inl e, db)
           | Inr (r, db') \<Rightarrow> (Inr r, db')))"

definition return :: "'a \<Rightarrow> database \<Rightarrow> 'a outcome" where
  "return v db = \<lparr>result = Inr v, db_after = db, events = [], pending = []\<rparr>"

definition rejected :: "error \<Rightarrow> 'a outcome \<Rightarrow> 'b outcome" where
  "rejected e out =
     \<lparr>result = Inl e, db_after = db_after out, events = events out, pending = pending out\<rparr>"

definition console_log :: "event \<Rightarrow> 'a outcome \<Rightarrow> 'a outcome" where
  "console_log ev out = out\<lparr>events := ev # events out\<rparr>"

text \<open>\<^verbatim>\<open>await client.sql`...`\<close>, followed by the rest of the function.\<close>

definition await_sql ::
  "env \<Rightarrow> op \<Rightarrow> sql_stmt \<Rightarrow> database \<Rightarrow> (sql_result \<Rightarrow> database \<Rightarrow> 'a outcome) \<Rightarrow> 'a outcome" where
  "await_sql env op stmt db k =
     (case client_sql env op stmt db of
        (Inl e, db') \<Rightarrow>
          \<lparr>result = Inl e, db_after = db', events = [Settled op (Inl e)], pending = []\<rparr>
      | (Inr r, db') \<Rightarrow> console_log (Settled op (Inr r)) (k r db'))"

text \<open>
  One promise of a batch settles: an async callback that threw before it reached the
  database rejects with that error, otherwise the statement runs.
\<close>

definition settle :: "env \<Rightarrow> task \<Rightarrow> database \<Rightarrow> (error + sql_result) \<times> database" where
  "settle env t db =
     (case snd t of
        Inl e \<Rightarrow> (Inl e, db)
      | Inr stmt \<Rightarrow> client_sql env (fst t) stmt db)"

text \<open>
  \<^verbatim>\<open>Promise.all\<close> over promises that settle in the given order: it fulfils when the last
  one has fulfilled, and rejects as soon as one rejects; the promises after that one are
  still pending then.
\<close>

fun promise_all :: "env \<Rightarrow> task list \<Rightarrow> database \<Rightarrow> ((op \<times> sql_result) list) outcome" where
  "promise_all env [] db = return [] db"
| "promise_all env (t # ts) db =
     (case settle env t db of
        (Inl e, db') \<Rightarrow>
          \<lparr>result = Inl e, db_after = db', events = [Settled (fst t) (Inl e)], pending = ts\<rparr>
      | (Inr r, db') \<Rightarrow>
          (let out = promise_all env ts db'
           in out\<lparr>result := map_sum id (Cons (fst t, r)) (result out),
                  events := Settled (fst t) (Inr r) # events out\<rparr>))"

text \<open>The promises left pending by a rejected \<^verbatim>\<open>Promise.all\<close> still run and settle.\<close>

fun drain :: "env \<Rightarrow> task list \<Rightarrow> database \<Rightarrow> database \<times> event list" where
  "drain env [] db = (db, [])"
| "drain env (t # ts) db =
     (case settle env t db of
        (r, db') \<Rightarrow>
          (case drain env ts db' of (db'', evs) \<Rightarrow> (db'', Settled (fst t) r # evs)))"

text \<open>
  \<^verbatim>\<open>await Promise.all(records.map(callback))\<close>, followed by the rest of the function:
  \<open>bodies\<close> are the callbacks' promises in array order; the array of results is in array
  order too.
\<close>

definition await_promise_all ::
  "env \<Rightarrow> phase \<Rightarrow> (error + sql_stmt) list \<Rightarrow> database
     \<Rightarrow> (sql_result list \<Rightarrow> database \<Rightarrow> 'a outcome) \<Rightarrow> 'a outcome" where
  "await_promise_all env p bodies db k =
     (let ops = map (OpInsert p) [0..<length bodies];
          out = promise_all env (settle_order (settle_choices env p) (zip ops bodies)) db
      in case result out of
           Inl e \<Rightarrow> rejected e out
         | Inr rs \<Rightarrow>
             (let rest = k (List.map_filter (map_of rs) ops) (db_after out)
              in rest\<lparr>events := events out @ events rest\<rparr>))"

text \<open>\<^verbatim>\<open>try { ... } catch (error) { console.error('Error seeding ...:', error); throw error; }\<close>\<close>

definition try_catch :: "phase \<Rightarrow> 'a outcome \<Rightarrow> 'a outcome" where
  "try_catch p out =
     (case result out of
        Inl e \<Rightarrow> out\<lparr>events := events out @ [LogSeedError p e]\<rparr>
      | Inr v \<Rightarrow> out)"

text \<open>
  \<^verbatim>\<open>await f(client)\<close> for an async function \<open>f\<close>, followed by the rest of the caller,
  which gets the value and the database as they are then.
\<close>

definition await_call :: "'a outcome \<Rightarrow> ('a \<Rightarrow> database \<Rightarrow> 'b outcome) \<Rightarrow> 'b outcome" where
  "await_call out k =
     (case result out of
        Inl e \<Rightarrow> rejected e out
      | Inr v \<Rightarrow>
          (let rest = k v (db_after out) in rest\<lparr>events := events out @ events rest\<rparr>))"

subsection \<open>The script\<close>

text \<open>\<^verbatim>\<open>bcrypt.hash(user.password, 10)\<close>: rejects when there is no data to hash.\<close>

definition bcrypt_hash_call :: "env \<Rightarrow> nat \<Rightarrow> string option \<Rightarrow> nat \<Rightarrow> error + string" where
  "bcrypt_hash_call env i data rounds =
     (case data of
        None \<Rightarrow> Inl HashError
      | Some plaintext \<Rightarrow> Inr (bcrypt_hash env plaintext rounds (bcrypt_salt env i)))"

definition seedUsers ::
  "env \<Rightarrow> user list \<Rightarrow> database \<Rightarrow> (sql_result \<times> sql_result list) outcome" where
  "seedUsers env users' db =
     try_catch Users
      (await_sql env (OpExtension Users) CreateExtension db (\<lambda>_ db.
       await_sql env (OpCreate Users) CreateUsers db (\<lambda>createTable db.
       console_log (LogCreated Users)
        (await_promise_all env Users
          (map (\<lambda>(i, user).
             (case bcrypt_hash_call env i (user_password user) 10 of
                Inl e \<Rightarrow> Inl e
              | Inr hashedPassword \<Rightarrow>
                  Inr (InsertUser (user_id user) (user_name user) (user_email user)
                        (Some hashedPassword))))
           (enumerate 0 users')) db (\<lambda>insertedUsers db.
         console_log (LogSeeded Users (length insertedUsers))
          (return (createTable, insertedUsers) db))))))"

definition seedInvoices ::
  "env \<Rightarrow> invoice list \<Rightarrow> database \<Rightarrow> (sql_result \<times> sql_result list) outcome" where
  "seedInvoices env invoices' db =
     try_catch Invoices
      (await_sql env (OpExtension Invoices) CreateExtension db (\<lambda>_ db.
       await_sql env (OpCreate Invoices) CreateInvoices db (\<lambda>createTable db.
       console_log (LogCreated Invoices)
        (await_promise_all env Invoices
          (map (\<lambda>invoice.
             Inr (InsertInvoice (invoice_customer_id invoice) (invoice_amount invoice)
                   (invoice_status invoice) (invoice_date invoice)))
           invoices') db (\<lambda>insertedInvoices db.
         console_log (LogSeeded Invoices (length insertedInvoices))
          (return (createTable, insertedInvoices) db))))))"

definition seedCustomers ::
  "env \<Rightarrow> customer list \<Rightarrow> database \<Rightarrow> (sql_result \<times> sql_result list) outcome" where
  "seedCustomers env customers' db =
     try_catch Customers
      (await_sql env (OpExtension Customers) CreateExtension db (\<lambda>_ db.
       await_sql env (OpCreate Customers) CreateCustomers db (\<lambda>createTable db.
       console_log (LogCreated Customers)
        (await_promise_all env Customers
          (map (\<lambda>customer.
             Inr (InsertCustomer (customer_id customer) (customer_name customer)
                   (customer_email customer) (customer_image_url customer)))
           customers') db (\<lambda>insertedCustomers db.
         console_log (LogSeeded Customers (length insertedCustomers))
          (return (createTable, insertedCustomers) db))))))"

definition seedRevenue ::
  "env \<Rightarrow> rev list \<Rightarrow> database \<Rightarrow> (sql_result \<times> sql_result list) outcome" where
  "seedRevenue env revenue' db =
     try_catch Revenue
      (await_sql env (OpCreate Revenue) CreateRevenue db (\<lambda>createTable db.
       console_log (LogCreated Revenue)
        (await_promise_all env Revenue
          (map (\<lambda>rev. Inr (InsertRevenue (rev_month rev) (rev_revenue rev))) revenue') db
          (\<lambda>insertedRevenue db.
         console_log (LogSeeded Revenue (length insertedRevenue))
          (return (createTable, insertedRevenue) db)))))"

text \<open>\<^verbatim>\<open>await db.connect()\<close> and \<^verbatim>\<open>await client.end()\<close>.\<close>

definition db_connect :: "env \<Rightarrow> database \<Rightarrow> (database \<Rightarrow> 'a outcome) \<Rightarrow> 'a outcome" where
  "db_connect env db k =
     (case fault env OpConnect of
        Some e \<Rightarrow>
          \<lparr>result = Inl e, db_after = db, events = [Settled OpConnect (Inl e)], pending = []\<rparr>
      | None \<Rightarrow> console_log (Settled OpConnect (Inr CommandOk)) (k db))"

definition client_end :: "env \<Rightarrow> database \<Rightarrow> unit outcome" where
  "client_end env db =
     (case fault env OpEnd of
        Some e \<Rightarrow>
          \<lparr>result = Inl e, db_after = db, events = [Settled OpEnd (Inl e)], pending = []\<rparr>
      | None \<Rightarrow> console_log (Settled OpEnd (Inr CommandOk)) (return () db))"

definition main :: "env \<Rightarrow> fixtures \<Rightarrow> database \<Rightarrow> unit outcome" where
  "main env data db =
     db_connect env db (\<lambda>db.
     await_call (seedUsers env (users data) db) (\<lambda>_ db.
     await_call (seedCustomers env (customers data) db) (\<lambda>_ db.
     await_call (seedInvoices env (invoices data) db) (\<lambda>_ db.
     await_call (seedRevenue env (revenue data) db) (\<lambda>_ db.
     client_end env db)))))"

text \<open>
  The top level, \<^verbatim>\<open>main().catch((err) => console.error(...))\<close>: the whole run, until
  nothing is pending any more. It yields the final database and everything that happened.
\<close>

definition main_catch :: "env \<Rightarrow> fixtures \<Rightarrow> database \<Rightarrow> database \<times> event list" where
  "main_catch env data db =
     (let out = main env data db
      in case result out of
           Inr v \<Rightarrow> (db_after out, events out)
         | Inl err \<Rightarrow>
             (case drain env (pending out) (db_after out) of
                (db', evs) \<Rightarrow> (db', events out @ [LogMainError err] @ evs)))"

subsection \<open>Notions used to state the properties\<close>

text \<open>
  The schema initialisation of a table is the DDL at the start of its loader:
  \<^verbatim>\<open>CREATE EXTENSION IF NOT EXISTS\<close> (not in \<^verbatim>\<open>seedRevenue\<close>) and
  \<^verbatim>\<open>CREATE TABLE IF NOT EXISTS\<close>. Lemma \<open>seed_load\<close> below shows that every loader
  starts with exactly these statements.
\<close>

fun schema_init :: "env \<Rightarrow> phase \<Rightarrow> database \<Rightarrow> sql_result outcome" where
  "schema_init env Users db =
     await_sql env (OpExtension Users) CreateExtension db (\<lambda>_ db.
     await_sql env (OpCreate Users) CreateUsers db return)"
| "schema_init env Customers db =
     await_sql env (OpExtension Customers) CreateExtension db (\<lambda>_ db.
     await_sql env (OpCreate Customers) CreateCustomers db return)"
| "schema_init env Invoices db =
     await_sql env (OpExtension Invoices) CreateExtension db (\<lambda>_ db.
     await_sql env (OpCreate Invoices) CreateInvoices db return)"
| "schema_init env Revenue db =
     await_sql env (OpCreate Revenue) CreateRevenue db return"

text \<open>The promises a loader hands to \<^verbatim>\<open>Promise.all\<close>, in array order.\<close>

fun bodies :: "phase \<Rightarrow> env \<Rightarrow> fixtures \<Rightarrow> (error + sql_stmt) list" where
  "bodies Users env data =
     map (\<lambda>(i, user).
        (case bcrypt_hash_call env i (user_password user) 10 of
           Inl e \<Rightarrow> Inl e
         | Inr hashedPassword \<Rightarrow>
             Inr (InsertUser (user_id user) (user_name user) (user_email user)
                   (Some hashedPassword))))
      (enumerate 0 (users data))"
| "bodies Customers env data =
     map (\<lambda>customer.
        Inr (InsertCustomer (customer_id customer) (customer_name customer)
              (customer_email customer) (customer_image_url customer)))
      (customers data)"
| "bodies Invoices env data =
     map (\<lambda>invoice.
        Inr (InsertInvoice (invoice_customer_id invoice) (invoice_amount invoice)
              (invoice_status invoice) (invoice_date invoice)))
      (invoices data)"
| "bodies Revenue env data =
     map (\<lambda>rev. Inr (InsertRevenue (rev_month rev) (rev_revenue rev))) (revenue data)"

text \<open>The tasks of a batch in the order in which they settle.\<close>

definition batch :: "env \<Rightarrow> phase \<Rightarrow> (error + sql_stmt) list \<Rightarrow> task list" where
  "batch env p bs =
     settle_order (settle_choices env p) (zip (map (OpInsert p) [0..<length bs]) bs)"

text \<open>The loader of a phase, and the common shape of the four loaders.\<close>

fun seed ::
  "phase \<Rightarrow> env \<Rightarrow> fixtures \<Rightarrow> database \<Rightarrow> (sql_result \<times> sql_result list) outcome" where
  "seed Users env data db = seedUsers env (users data) db"
| "seed Customers env data db = seedCustomers env (customers data) db"
| "seed Invoices env data db = seedInvoices env (invoices data) db"
| "seed Revenue env data db = seedRevenue env (revenue data) db"

definition load ::
  "env \<Rightarrow> phase \<Rightarrow> (error + sql_stmt) list \<Rightarrow> database
     \<Rightarrow> (sql_result \<times> sql_result list) outcome" where
  "load env p bs db =
     try_catch p
      (await_call (schema_init env p db) (\<lambda>createTable db.
       console_log (LogCreated p)
        (await_promise_all env p bs db (\<lambda>inserted db.
         console_log (LogSeeded p (length inserted))
          (return (createTable, inserted) db)))))"

text \<open>The phases that \<^verbatim>\<open>main\<close> still has to run, then \<^verbatim>\<open>client.end()\<close>.\<close>

fun run_phases :: "env \<Rightarrow> fixtures \<Rightarrow> phase list \<Rightarrow> database \<Rightarrow> unit outcome" where
  "run_phases env data [] db = client_end env db"
| "run_phases env data (p # ps) db =
     await_call (seed p env data db) (\<lambda>_. run_phases env data ps)"

text \<open>The phase an operation or an event belongs to, and the position of a phase.\<close>

fun op_phase :: "op \<Rightarrow> phase option" where
  "op_phase OpConnect = None"
| "op_phase OpEnd = None"
| "op_phase (OpExtension p) = Some p"
| "op_phase (OpCreate p) = Some p"
| "op_phase (OpInsert p i) = Some p"

fun event_phase :: "event \<Rightarrow> phase option" where
  "event_phase (Settled op r) = op_phase op"
| "event_phase (LogCreated p) = Some p"
| "event_phase (LogSeeded p n) = Some p"
| "event_phase (LogSeedError p e) = Some p"
| "event_phase (LogMainError e) = None"

fun phase_rank :: "phase \<Rightarrow> nat" where
  "phase_rank Users = 0"
| "phase_rank Customers = 1"
| "phase_rank Invoices = 2"
| "phase_rank Revenue = 3"

definition phase_trace :: "event list \<Rightarrow> nat list" where
  "phase_trace evs = map phase_rank (List.map_filter event_phase evs)"

text \<open>How often the connection was released, and how often a release was attempted.\<close>

fun is_end_attempt :: "event \<Rightarrow> bool" where
  "is_end_attempt (Settled OpEnd r) = True"
| "is_end_attempt ev = False"

definition releases :: "event list \<Rightarrow> nat" where
  "releases evs = count_list evs (Settled OpEnd (Inr CommandOk))"

definition release_attempts :: "event list \<Rightarrow> nat" where
  "release_attempts evs = length (filter is_end_attempt evs)"

text \<open>The keys present in each table.\<close>

definition users_ids :: "database \<Rightarrow> uuid set" where
  "users_ids db = (case users_table db of None \<Rightarrow> {} | Some rows \<Rightarrow> set (map u_id rows))"

definition customers_ids :: "database \<Rightarrow> uuid set" where
  "customers_ids db =
     (case customers_table db of None \<Rightarrow> {} | Some rows \<Rightarrow> set (map c_id rows))"

definition invoices_ids :: "database \<Rightarrow> uuid set" where
  "invoices_ids db =
     (case invoices_table db of None \<Rightarrow> {} | Some rows \<Rightarrow> set (map i_id rows))"

definition revenue_months :: "database \<Rightarrow> string set" where
  "revenue_months db =
     (case revenue_table db of None \<Rightarrow> {} | Some rows \<Rightarrow> set (map r_month rows))"

definition table_exists :: "phase \<Rightarrow> database \<Rightarrow> bool" where
  "table_exists p db =
     (case p of
        Users \<Rightarrow> users_table db \<noteq> None
      | Customers \<Rightarrow> customers_table db \<noteq> None
      | Invoices \<Rightarrow> invoices_table db \<noteq> None
      | Revenue \<Rightarrow> revenue_table db \<noteq> None)"

text \<open>
  The statements a phase sends to the server: its DDL, and the insert of every record
  whose callback reaches the database.
\<close>

fun schema_stmts :: "phase \<Rightarrow> (op \<times> sql_stmt) list" where
  "schema_stmts Users = [(OpExtension Users, CreateExtension), (OpCreate Users, CreateUsers)]"
| "schema_stmts Customers =
     [(OpExtension Customers, CreateExtension), (OpCreate Customers, CreateCustomers)]"
| "schema_stmts Invoices =
     [(OpExtension Invoices, CreateExtension), (OpCreate Invoices, CreateInvoices)]"
| "schema_stmts Revenue = [(OpCreate Revenue, CreateRevenue)]"

definition phase_stmts :: "env \<Rightarrow> fixtures \<Rightarrow> phase \<Rightarrow> (op \<times> sql_stmt) set" where
  "phase_stmts env data p =
     set (schema_stmts p)
       \<union> {(OpInsert p i, stmt) | i stmt.
            i < length (bodies p env data) \<and> bodies p env data ! i = Inr stmt}"

text \<open>
  The key an insert names in its \<^verbatim>\<open>ON CONFLICT\<close> clause is already in the table:
  the given id for users and customers, the generated id for invoices, the month (as the
  column stores it) for revenue.
\<close>

fun key_present :: "uuid \<Rightarrow> sql_stmt \<Rightarrow> database \<Rightarrow> bool" where
  "key_present g (InsertUser i n e p) db =
     (case i of None \<Rightarrow> False | Some k \<Rightarrow> k \<in> users_ids db)"
| "key_present g (InsertCustomer i n e u) db =
     (case i of None \<Rightarrow> False | Some k \<Rightarrow> k \<in> customers_ids db)"
| "key_present g (InsertInvoice c a s d) db = (g \<in> invoices_ids db)"
| "key_present g (InsertRevenue m r) db =
     (case varchar 4 m of Inr (Some m') \<Rightarrow> m' \<in> revenue_months db | _ \<Rightarrow> False)"
| "key_present g stmt db = False"

text \<open>
  A statement has nothing left to do: the extension or the table exists, or the key of
  the insert is present. And the table a statement can change.
\<close>

fun satisfied :: "uuid \<Rightarrow> sql_stmt \<Rightarrow> database \<Rightarrow> bool" where
  "satisfied g CreateExtension db = uuid_ossp db"
| "satisfied g CreateUsers db = (users_table db \<noteq> None)"
| "satisfied g CreateCustomers db = (customers_table db \<noteq> None)"
| "satisfied g CreateInvoices db = (invoices_table db \<noteq> None)"
| "satisfied g CreateRevenue db = (revenue_table db \<noteq> None)"
| "satisfied g stmt db = key_present g stmt db"

fun stmt_table :: "sql_stmt \<Rightarrow> phase option" where
  "stmt_table CreateExtension = None"
| "stmt_table CreateUsers = Some Users"
| "stmt_table CreateCustomers = Some Customers"
| "stmt_table CreateInvoices = Some Invoices"
| "stmt_table CreateRevenue = Some Revenue"
| "stmt_table (InsertUser i n e p) = Some Users"
| "stmt_table (InsertCustomer i n e u) = Some Customers"
| "stmt_table (InsertInvoice c a s d) = Some Invoices"
| "stmt_table (InsertRevenue m r) = Some Revenue"

text \<open>An invoice record that fits the columns of the invoices table.\<close>

definition valid_invoice :: "invoice \<Rightarrow> bool" where
  "valid_invoice ivc =
     (invoice_customer_id ivc \<noteq> None
      \<and> (case int4 (invoice_amount ivc) of Inr (Some a) \<Rightarrow> True | _ \<Rightarrow> False)
      \<and> (case varchar 255 (invoice_status ivc) of Inr (Some s) \<Rightarrow> True | _ \<Rightarrow> False)
      \<and> invoice_date ivc \<noteq> None)"

text \<open>
  The rows of the users table, and a row that stores, under a fixture record's id and
  email, the bcrypt hash (cost 10, the salt drawn for that record) of its plaintext.
\<close>

definition users_rows :: "database \<Rightarrow> users_row list" where
  "users_rows db = (case users_table db of None \<Rightarrow> [] | Some rows \<Rightarrow> rows)"

definition hashed_from :: "env \<Rightarrow> fixtures \<Rightarrow> users_row \<Rightarrow> bool" where
  "hashed_from env data row =
     (\<exists>i plaintext. i < length (users data)
        \<and> user_id (users data ! i) = Some (u_id row)
        \<and> user_email (users data ! i) = Some (u_email row)
        \<and> user_password (users data ! i) = Some plaintext
        \<and> u_password row = bcrypt_hash env plaintext 10 (bcrypt_salt env i))"

text \<open>The phases of the tasks still pending, as ranks.\<close>

definition task_trace :: "task list \<Rightarrow> nat list" where
  "task_trace ts = map phase_rank (List.map_filter (\<lambda>t. op_phase (fst t)) ts)"

subsection \<open>Example inputs\<close>

text \<open>
  An environment without failures, in which the promises of a batch settle in submission
  order, with a stand-in for bcrypt that prefixes the salt; and a second one that differs
  in the generated ids, as a later run does.
\<close>

definition quiet_env :: env where
  "quiet_env =
     \<lparr>fault = (\<lambda>op. None),
      uuid_generate_v4 = (\<lambda>op. case op of OpInsert p i \<Rightarrow> 1000 + word_of_nat i | _ \<Rightarrow> 0),
      settle_choices = (\<lambda>p. []),
      bcrypt_salt = (\<lambda>i. ''salt''),
      bcrypt_hash = (\<lambda>plaintext rounds salt. ''$2b$10$'' @ salt @ plaintext),
      bcrypt_compare =
        (\<lambda>plaintext stored. drop (length stored - length plaintext) stored = plaintext)\<rparr>"

definition later_env :: env where
  "later_env =
     quiet_env\<lparr>uuid_generate_v4 :=
       (\<lambda>op. case op of OpInsert p i \<Rightarrow> 2000 + word_of_nat i | _ \<Rightarrow> 0)\<rparr>"

text \<open>
  Fixtures with one record per table, whose invoice names a customer that is not in the
  customers fixture; the same with a users fixture whose first record has no name; and the
  database after one run on the first.
\<close>

definition sample_data :: fixtures where
  "sample_data =
     \<lparr>users = [\<lparr>user_id = Some 1, user_name = Some ''Ann'', user_email = Some ''ann@x.com'',
                 user_password = Some ''plain''\<rparr>],
      customers = [\<lparr>customer_id = Some 3, customer_name = Some ''Cy'',
                     customer_email = Some ''cy@x.com'', customer_image_url = Some ''/cy.png''\<rparr>],
      invoices = [\<lparr>invoice_customer_id = Some 77, invoice_amount = Some 15795,
                    invoice_status = Some ''pending'', invoice_date = Some (2022, 12, 6)\<rparr>],
      revenue = [\<lparr>rev_month = Some ''Jan'', rev_revenue = Some 100\<rparr>]\<rparr>"

definition nameless_data :: fixtures where
  "nameless_data =
     sample_data\<lparr>users :=
       [\<lparr>user_id = Some 1, user_name = None, user_email = Some ''ann@x.com'',
          user_password = Some ''plain''\<rparr>,
        \<lparr>user_id = Some 2, user_name = Some ''Bob'', user_email = Some ''bob@x.com'',
          user_password = Some ''secret''\<rparr>]\<rparr>"

definition seeded_database :: database where
  "seeded_database =
     \<lparr>uuid_ossp = True,
      users_table = Some [\<lparr>u_id = 1, u_name = ''Ann'', u_email = ''ann@x.com'',
                            u_password = ''$2b$10$saltplain''\<rparr>],
      customers_table = Some [\<lparr>c_id = 3, c_name = ''Cy'', c_email = ''cy@x.com'',
                                c_image_url = ''/cy.png''\<rparr>],
      invoices_table = Some [\<lparr>i_id = 1000, i_customer_id = 77, i_amount = 15795,
                               i_status = ''pending'', i_date = (2022, 12, 6)\<rparr>],
      revenue_table = Some [\<lparr>r_month = ''Jan'', r_revenue = 100\<rparr>]\<rparr>"

section \<open>Properties\<close>

subsection \<open>Evaluating a run on concrete inputs\<close>

text \<open>
  The continuations of the runtime's combinators are only entered once their argument is
  known: these congruence rules keep the simplifier out of them until then.
\<close>

lemma await_sql_cong:
  "env = env' \<Longrightarrow> op = op' \<Longrightarrow> stmt = stmt' \<Longrightarrow> db = db'
    \<Longrightarrow> await_sql env op stmt db k = await_sql env' op' stmt' db' k"
  by simp

lemma await_promise_all_cong:
  "env = env' \<Longrightarrow> p = p' \<Longrightarrow> bs = bs' \<Longrightarrow> db = db'
    \<Longrightarrow> await_promise_all env p bs db k = await_promise_all env' p' bs' db' k"
  by simp

lemma await_call_cong: "out = out' \<Longrightarrow> await_call out k = await_call out' k"
  by simp

lemma db_connect_cong:
  "env = env' \<Longrightarrow> db = db' \<Longrightarrow> db_connect env db k = db_connect env' db' k"
  by simp

lemma and_then_cong: "r = r' \<Longrightarrow> and_then r k = and_then r' k"
  by simp

lemmas run_congs =
  await_sql_cong await_promise_all_cong await_call_cong db_connect_cong and_then_cong
  prod.case_cong_weak

lemmas run_defs =
  main_catch_def main_def empty_database_def row_count_def seedUsers_def seedCustomers_def
  seedInvoices_def seedRevenue_def try_catch_def await_sql_def await_promise_all_def
  client_sql_def db_connect_def client_end_def await_call_def console_log_def return_def
  rejected_def settle_def bcrypt_hash_call_def insert_user_def insert_customer_def
  insert_invoice_def insert_revenue_def and_then_def varchar_def int4_def not_null_def
  enumerate_eq_zip List.map_filter_def Let_def quiet_env_def later_env_def

subsection \<open>The loaders have one shape\<close>

lemma await_call_return: "await_call (return v db) K = K v db"
  by (simp add: await_call_def return_def)

lemma result_console_log: "result (console_log ev out) = result out"
  and db_after_console_log: "db_after (console_log ev out) = db_after out"
  and events_console_log: "events (console_log ev out) = ev # events out"
  and pending_console_log: "pending (console_log ev out) = pending out"
  by (simp_all add: console_log_def)

lemma await_call_console_log:
  "await_call (console_log ev out) K = console_log ev (await_call out K)"
  by (cases "result out") (simp_all add: await_call_def console_log_def rejected_def Let_def)

lemma await_call_await_sql:
  "await_call (await_sql env op stmt db k) K =
     await_sql env op stmt db (\<lambda>r db'. await_call (k r db') K)"
proof (cases "client_sql env op stmt db")
  case (Pair r db')
  show ?thesis
  proof (cases r)
    case (Inl e)
    with Pair show ?thesis by (simp add: await_sql_def await_call_def rejected_def)
  next
    case (Inr v)
    with Pair show ?thesis by (simp add: await_sql_def await_call_console_log)
  qed
qed

lemma seed_load: "seed p env data db = load env p (bodies p env data) db"
  by (cases p)
    (simp_all add: load_def seedUsers_def seedCustomers_def seedInvoices_def seedRevenue_def
      await_call_await_sql await_call_return)

lemma run_phases_eta:
  "run_phases env data [] = client_end env"
  "run_phases env data (p # ps) =
     (\<lambda>db. await_call (seed p env data db) (\<lambda>_. run_phases env data ps))"
  by (rule ext, simp)+

lemma main_run_phases:
  "main env data db =
     db_connect env db (\<lambda>db. run_phases env data [Users, Customers, Invoices, Revenue] db)"
  by (simp add: main_def run_phases_eta)


subsection \<open>Batches\<close>

lemma promise_all_Inr_pending:
  "result (promise_all env ts db) = Inr rs \<Longrightarrow> pending (promise_all env ts db) = []"
proof (induction ts arbitrary: db rs)
  case Nil
  then show ?case by (simp add: return_def)
next
  case (Cons t ts)
  obtain r db' where s: "settle env t db = (r, db')" by (cases "settle env t db")
  show ?case
  proof (cases r)
    case (Inl e)
    with s Cons.prems show ?thesis by simp
  next
    case (Inr v)
    with s Cons.prems obtain rs' where "result (promise_all env ts db') = Inr rs'"
      by (cases "result (promise_all env ts db')") (simp_all add: Let_def)
    with Cons.IH have "pending (promise_all env ts db') = []" by blast
    with s Inr show ?thesis by (simp add: Let_def)
  qed
qed

text \<open>Everything a batch does, whether or not \<^verbatim>\<open>Promise.all\<close> has already rejected.\<close>

lemma promise_all_drain:
  "drain env ts db =
     (fst (drain env (pending (promise_all env ts db)) (db_after (promise_all env ts db))),
      events (promise_all env ts db)
        @ snd (drain env (pending (promise_all env ts db)) (db_after (promise_all env ts db))))"
proof (induction ts arbitrary: db)
  case Nil
  show ?case by (simp add: return_def)
next
  case (Cons t ts)
  obtain r db' where s: "settle env t db = (r, db')" by (cases "settle env t db")
  show ?case
  proof (cases r)
    case (Inl e)
    with s show ?thesis by (simp split: prod.splits)
  next
    case (Inr v)
    with s Cons.IH [of db'] show ?thesis by (simp add: Let_def split: prod.splits)
  qed
qed

lemma promise_all_Inr_drain:
  assumes "result (promise_all env ts db) = Inr rs"
  shows "drain env ts db = (db_after (promise_all env ts db), events (promise_all env ts db))"
  using promise_all_drain [of env ts db] promise_all_Inr_pending [OF assms] by simp

subsection \<open>Schema initialisation\<close>

lemma uuid_ossp_True_id: "uuid_ossp d \<Longrightarrow> d\<lparr>uuid_ossp := True\<rparr> = d"
  by (cases d) simp

lemma schema_init_post:
  assumes "result (schema_init env p db) = Inr r"
  shows "table_exists p (db_after (schema_init env p db))"
    and "p \<noteq> Revenue \<Longrightarrow> uuid_ossp (db_after (schema_init env p db))"
  using assms
  by (cases p; simp add: await_sql_def client_sql_def console_log_def return_def table_exists_def
        split: option.splits if_splits)+

lemma schema_init_again:
  assumes "table_exists p d" and "p \<noteq> Revenue \<Longrightarrow> uuid_ossp d"
    and "fault env (OpExtension p) = None" and "fault env (OpCreate p) = None"
  shows "result (schema_init env p d) = Inr CommandOk \<and> db_after (schema_init env p d) = d"
  using assms
  by (cases p)
    (simp_all add: await_sql_def client_sql_def console_log_def return_def table_exists_def
      uuid_ossp_True_id)

lemma schema_init_keeps_rows:
  "users_table db = Some us \<Longrightarrow> users_table (db_after (schema_init env p db)) = Some us"
  "customers_table db = Some cs \<Longrightarrow> customers_table (db_after (schema_init env p db)) = Some cs"
  "invoices_table db = Some is \<Longrightarrow> invoices_table (db_after (schema_init env p db)) = Some is"
  "revenue_table db = Some rs \<Longrightarrow> revenue_table (db_after (schema_init env p db)) = Some rs"
  by (cases p; simp add: await_sql_def client_sql_def console_log_def return_def
        split: option.splits if_splits)+

subsection \<open>Awaiting\<close>

lemma await_call_Inl:
  "result out = Inl e \<Longrightarrow> await_call out k = rejected e out"
  by (simp add: await_call_def)

lemma await_call_Inr:
  assumes "result out = Inr v"
  shows "result (await_call out k) = result (k v (db_after out))"
    and "db_after (await_call out k) = db_after (k v (db_after out))"
    and "events (await_call out k) = events out @ events (k v (db_after out))"
    and "pending (await_call out k) = pending (k v (db_after out))"
  using assms by (simp_all add: await_call_def Let_def)

lemma rejected_simps:
  "result (rejected e out) = Inl e"
  "db_after (rejected e out) = db_after out"
  "events (rejected e out) = events out"
  "pending (rejected e out) = pending out"
  by (simp_all add: rejected_def)

lemma schema_init_pending: "pending (schema_init env p db) = []"
  by (cases p)
    (simp_all add: await_sql_def client_sql_def console_log_def return_def
      split: option.splits sum.splits prod.splits)

lemma schema_init_events_phase:
  "ev \<in> set (events (schema_init env p db)) \<Longrightarrow> event_phase ev = Some p"
  by (cases p)
    (auto simp: await_sql_def client_sql_def console_log_def return_def
      split: option.splits sum.splits prod.splits)

lemma schema_init_events_shape:
  "ev \<in> set (events (schema_init env p db))
    \<Longrightarrow> (\<exists>r. ev = Settled (OpExtension p) r) \<or> (\<exists>r. ev = Settled (OpCreate p) r)"
  by (cases p)
    (auto simp: await_sql_def client_sql_def console_log_def return_def
      split: option.splits sum.splits prod.splits)

lemma schema_init_events_nonempty: "events (schema_init env p db) \<noteq> []"
  by (cases p)
    (auto simp: await_sql_def client_sql_def console_log_def return_def
      split: option.splits sum.splits prod.splits)

lemma schema_init_Inr_events:
  "result (schema_init env p db) = Inr r
    \<Longrightarrow> ev \<in> set (events (schema_init env p db)) \<Longrightarrow> \<exists>op v. ev = Settled op (Inr v)"
  by (cases p)
    (auto simp: await_sql_def client_sql_def console_log_def return_def
      split: option.splits sum.splits prod.splits)

lemma schema_init_Inl_events:
  "result (schema_init env p db) = Inl e
    \<Longrightarrow> \<exists>evs op. events (schema_init env p db) = evs @ [Settled op (Inl e)]
          \<and> (\<forall>ev \<in> set evs. \<exists>op v. ev = Settled op (Inr v))"
  by (cases p)
    (auto simp: await_sql_def client_sql_def console_log_def return_def
      split: option.splits sum.splits prod.splits if_splits)

subsection \<open>The three ways a loader ends\<close>

lemma load_schema_failed:
  assumes "result (schema_init env p db) = Inl e"
  shows "load env p bs db =
     \<lparr>result = Inl e, db_after = db_after (schema_init env p db),
      events = events (schema_init env p db) @ [LogSeedError p e], pending = []\<rparr>"
  using assms
  by (simp add: load_def await_call_Inl rejected_def try_catch_def schema_init_pending)

lemma load_batch_failed:
  assumes "result (schema_init env p db) = Inr ct"
    and "result (promise_all env (batch env p bs) (db_after (schema_init env p db))) = Inl e"
  shows "load env p bs db =
     \<lparr>result = Inl e,
      db_after = db_after (promise_all env (batch env p bs) (db_after (schema_init env p db))),
      events = events (schema_init env p db) @ LogCreated p
        # events (promise_all env (batch env p bs) (db_after (schema_init env p db)))
        @ [LogSeedError p e],
      pending = pending (promise_all env (batch env p bs) (db_after (schema_init env p db)))\<rparr>"
  using assms
  by (simp add: load_def await_call_def await_promise_all_def batch_def rejected_def
      try_catch_def console_log_def Let_def)

lemma load_ok:
  assumes "result (schema_init env p db) = Inr ct"
    and "result (promise_all env (batch env p bs) (db_after (schema_init env p db))) = Inr rs"
  shows "load env p bs db =
     \<lparr>result = Inr (ct, List.map_filter (map_of rs) (map (OpInsert p) [0..<length bs])),
      db_after = db_after (promise_all env (batch env p bs) (db_after (schema_init env p db))),
      events = events (schema_init env p db) @ LogCreated p
        # events (promise_all env (batch env p bs) (db_after (schema_init env p db)))
        @ [LogSeeded p (length (List.map_filter (map_of rs) (map (OpInsert p) [0..<length bs])))],
      pending = []\<rparr>"
  using assms
  by (simp add: load_def await_call_def await_promise_all_def batch_def rejected_def
      try_catch_def console_log_def return_def Let_def)

subsection \<open>The settlement order is a permutation\<close>

lemma mset_remove_nth:
  "k < length xs \<Longrightarrow> add_mset (xs ! k) (mset (remove_nth k xs)) = mset xs"
proof -
  assume k: "k < length xs"
  then have "xs = take k xs @ xs ! k # drop (Suc k) xs"
    by (rule id_take_nth_drop)
  then have "mset xs = mset (take k xs @ xs ! k # drop (Suc k) xs)"
    by simp
  then show ?thesis
    by (simp add: remove_nth_def)
qed

lemma mset_settle_order: "mset (settle_order cs xs) = mset xs"
proof (induction cs xs rule: settle_order.induct)
  case (3 c cs x xs)
  have "c mod length (x # xs) < length (x # xs)" by simp
  from mset_remove_nth [OF this] 3 show ?case by simp
qed simp_all

lemma set_settle_order: "set (settle_order cs xs) = set xs"
  by (rule mset_eq_setD) (rule mset_settle_order)

lemma distinct_map_settle_order:
  "distinct (map f (settle_order cs xs)) = distinct (map f xs)"
proof -
  have "mset (map f (settle_order cs xs)) = mset (map f xs)"
    by (simp add: mset_settle_order)
  then show ?thesis by (rule mset_eq_imp_distinct_iff)
qed

lemma length_settle_order: "length (settle_order cs xs) = length xs"
  by (rule mset_eq_length) (rule mset_settle_order)

lemma settle_order_pick:
  assumes "k < length xs"
  shows "settle_order (k # cs) xs = xs ! k # settle_order cs (remove_nth k xs)"
proof (cases xs)
  case Nil
  with assms show ?thesis by simp
next
  case (Cons x xs')
  with assms have "k mod length (x # xs') = k" by simp
  with Cons show ?thesis by (simp del: length_Cons nth_Cons' list.size)
qed

text \<open>Every order of settlement is the order of some choices of the scheduler.\<close>

lemma settle_order_any:
  "mset ys = mset xs \<Longrightarrow> \<exists>cs. settle_order cs xs = ys"
proof (induction ys arbitrary: xs)
  case Nil
  then have "xs = []" by simp
  then show ?case by (intro exI [of _ "[]"]) simp
next
  case (Cons y ys)
  from Cons.prems have "y \<in> set xs"
    by (metis list.set_intros(1) mset_eq_setD)
  then obtain k where k: "k < length xs" and y: "xs ! k = y"
    by (auto simp: in_set_conv_nth)
  from mset_remove_nth [OF k] y Cons.prems
  have "add_mset y (mset ys) = add_mset y (mset (remove_nth k xs))"
    by simp
  then have "mset ys = mset (remove_nth k xs)"
    by simp
  from Cons.IH [OF this] obtain cs where "settle_order cs (remove_nth k xs) = ys" by blast
  with settle_order_pick [OF k, of cs] y show ?case
    by (intro exI [of _ "k # cs"]) simp
qed

lemma set_batch:
  "set (batch env p bs) = set (zip (map (OpInsert p) [0..<length bs]) bs)"
  by (simp add: batch_def set_settle_order)

lemma batch_ops:
  "fst ` set (batch env p bs) = OpInsert p ` {..<length bs}"
proof -
  have "map fst (zip (map (OpInsert p) [0..<length bs]) bs) = map (OpInsert p) [0..<length bs]"
    by (simp add: map_fst_zip)
  then have "set (map fst (zip (map (OpInsert p) [0..<length bs]) bs))
      = set (map (OpInsert p) [0..<length bs])"
    by (rule arg_cong)
  then have "fst ` set (zip (map (OpInsert p) [0..<length bs]) bs) = OpInsert p ` set [0..<length bs]"
    by (simp only: set_map)
  then show ?thesis
    by (simp only: set_batch set_upt lessThan_atLeast0)
qed

lemma distinct_batch_ops: "distinct (map fst (batch env p bs))"
proof -
  have "distinct (map (OpInsert p) [0..<length bs])"
    by (simp add: distinct_map inj_on_def)
  then show ?thesis
    by (simp add: batch_def distinct_map_settle_order map_fst_zip)
qed

lemma length_batch: "length (batch env p bs) = length bs"
  by (simp add: batch_def length_settle_order)

lemma batch_phase:
  assumes "t \<in> set (batch env p bs)"
  shows "op_phase (fst t) = Some p"
proof -
  from assms have "fst t \<in> fst ` set (batch env p bs)" by (rule imageI)
  then obtain i where "fst t = OpInsert p i" unfolding batch_ops by blast
  then show ?thesis by simp
qed

subsection \<open>What a batch leaves in the trace\<close>

lemma promise_all_Inr_events:
  "result (promise_all env ts db) = Inr rs
    \<Longrightarrow> events (promise_all env ts db) = map (\<lambda>(op, r). Settled op (Inr r)) rs
        \<and> map fst rs = map fst ts"
proof (induction ts arbitrary: db rs)
  case Nil
  then show ?case by (simp add: return_def)
next
  case (Cons t ts)
  obtain r db' where s: "settle env t db = (r, db')" by (cases "settle env t db")
  show ?case
  proof (cases r)
    case (Inl e)
    with s Cons.prems show ?thesis by simp
  next
    case (Inr v)
    with s Cons.prems obtain rs' where rs': "result (promise_all env ts db') = Inr rs'"
      and rs: "rs = (fst t, v) # rs'"
      by (cases "result (promise_all env ts db')") (auto simp: Let_def)
    from Cons.IH [OF rs'] s Inr rs show ?thesis by (simp add: Let_def)
  qed
qed

lemma promise_all_Inl_events:
  "result (promise_all env ts db) = Inl e
    \<Longrightarrow> \<exists>rs t. ts = take (length rs) ts @ t # pending (promise_all env ts db)
        \<and> events (promise_all env ts db)
            = map (\<lambda>(op, r). Settled op (Inr r)) rs @ [Settled (fst t) (Inl e)]
        \<and> map fst rs = map fst (take (length rs) ts)"
proof (induction ts arbitrary: db)
  case Nil
  then show ?case by (simp add: return_def)
next
  case (Cons t ts)
  obtain r db' where s: "settle env t db = (r, db')" by (cases "settle env t db")
  show ?case
  proof (cases r)
    case (Inl e')
    with s Cons.prems have "e' = e" by simp
    with s Inl show ?thesis
      by (intro exI [of _ "[]"] exI [of _ t]) simp
  next
    case (Inr v)
    with s Cons.prems have "result (promise_all env ts db') = Inl e"
      by (cases "result (promise_all env ts db')") (auto simp: Let_def)
    from Cons.IH [OF this] obtain rs t' where
      a: "ts = take (length rs) ts @ t' # pending (promise_all env ts db')"
      and b: "events (promise_all env ts db')
            = map (\<lambda>(op, r). Settled op (Inr r)) rs @ [Settled (fst t') (Inl e)]"
      and c: "map fst rs = map fst (take (length rs) ts)"
      by blast
    from a b c s Inr show ?thesis
      by (intro exI [of _ "(fst t, v) # rs"] exI [of _ t']) (simp add: Let_def)
  qed
qed

lemma promise_all_events_tasks:
  "ev \<in> set (events (promise_all env ts db)) \<Longrightarrow> \<exists>t \<in> set ts. \<exists>r. ev = Settled (fst t) r"
proof (induction ts arbitrary: db)
  case Nil
  then show ?case by (simp add: return_def)
next
  case (Cons t ts)
  obtain r db' where s: "settle env t db = (r, db')" by (cases "settle env t db")
  show ?case
  proof (cases r)
    case (Inl e)
    with s Cons.prems show ?thesis by auto
  next
    case (Inr v)
    with s Cons.prems have "ev = Settled (fst t) (Inr v) \<or> ev \<in> set (events (promise_all env ts db'))"
      by (auto simp: Let_def)
    with Cons.IH [of db'] show ?thesis by auto
  qed
qed

lemma promise_all_pending_tasks:
  "set (pending (promise_all env ts db)) \<subseteq> set ts"
proof (induction ts arbitrary: db)
  case Nil
  then show ?case by (simp add: return_def)
next
  case (Cons t ts)
  obtain r db' where s: "settle env t db = (r, db')" by (cases "settle env t db")
  show ?case
  proof (cases r)
    case (Inl e)
    with s show ?thesis by auto
  next
    case (Inr v)
    with s Cons.IH [of db'] show ?thesis by (auto simp: Let_def)
  qed
qed

lemma drain_events:
  "list_all2 (\<lambda>ev t. \<exists>r. ev = Settled (fst t) r) (snd (drain env ts db)) ts"
proof (induction ts arbitrary: db)
  case Nil
  show ?case by simp
next
  case (Cons t ts)
  obtain r db' where s: "settle env t db = (r, db')" by (cases "settle env t db")
  obtain db'' evs where d: "drain env ts db' = (db'', evs)" by (cases "drain env ts db'")
  from Cons.IH [of db'] d have "list_all2 (\<lambda>ev t. \<exists>r. ev = Settled (fst t) r) evs ts" by simp
  with s d show ?case by simp
qed

subsection \<open>Facts about one loader\<close>

lemma load_cases [case_names schema_failed batch_failed ok]:
  obtains
    (schema_failed) e where "result (schema_init env p db) = Inl e"
  | (batch_failed) ct e where "result (schema_init env p db) = Inr ct"
      and "result (promise_all env (batch env p bs) (db_after (schema_init env p db))) = Inl e"
  | (ok) ct rs where "result (schema_init env p db) = Inr ct"
      and "result (promise_all env (batch env p bs) (db_after (schema_init env p db))) = Inr rs"
proof (cases "result (schema_init env p db)")
  case (Inl e)
  then show ?thesis by (rule schema_failed)
next
  case (Inr ct)
  then show ?thesis
    by (cases "result (promise_all env (batch env p bs) (db_after (schema_init env p db)))")
      (blast intro: batch_failed ok)+
qed

lemma length_map_filter_total:
  "\<forall>x \<in> set xs. f x \<noteq> None \<Longrightarrow> length (List.map_filter f xs) = length xs"
  by (induction xs) (auto simp: List.map_filter_simps split: option.splits)

lemma batch_results_length:
  assumes "result (promise_all env (batch env p bs) db) = Inr rs"
  shows "length (List.map_filter (map_of rs) (map (OpInsert p) [0..<length bs])) = length bs"
proof -
  from promise_all_Inr_events [OF assms] have "map fst rs = map fst (batch env p bs)"
    by simp
  then have "set (map fst rs) = fst ` set (batch env p bs)"
    by (metis set_map)
  then have dom: "fst ` set rs = OpInsert p ` {..<length bs}"
    by (simp add: batch_ops)
  have "\<forall>x \<in> set (map (OpInsert p) [0..<length bs]). map_of rs x \<noteq> None"
  proof
    fix x assume that: "x \<in> set (map (OpInsert p) [0..<length bs])"
    from that have "x \<in> OpInsert p ` {..<length bs}" by auto
    with dom have "x \<in> fst ` set rs" by simp
    then show "map_of rs x \<noteq> None" by (simp add: map_of_eq_None_iff)
  qed
  then have "length (List.map_filter (map_of rs) (map (OpInsert p) [0..<length bs]))
      = length (map (OpInsert p) [0..<length bs])"
    by (rule length_map_filter_total)
  then show ?thesis by simp
qed

lemma batch_events_phase:
  assumes "ev \<in> set (events (promise_all env (batch env p bs) db))"
  shows "event_phase ev = Some p"
proof -
  from promise_all_events_tasks [OF assms] obtain t r
    where "t \<in> set (batch env p bs)" and "ev = Settled (fst t) r" by blast
  with batch_phase [of t env p bs] show ?thesis by simp
qed

lemma load_events_phase:
  assumes "ev \<in> set (events (load env p bs db))"
  shows "event_phase ev = Some p"
proof (cases rule: load_cases [where env = env and p = p and db = db and bs = bs])
  case (schema_failed e)
  with assms show ?thesis
    by (auto simp: load_schema_failed dest: schema_init_events_phase)
next
  case (batch_failed ct e)
  with assms show ?thesis
    by (auto simp: load_batch_failed
        dest: schema_init_events_phase batch_events_phase)
next
  case (ok ct rs)
  with assms show ?thesis
    by (auto simp: load_ok dest: schema_init_events_phase batch_events_phase)
qed

lemma load_pending_phase:
  assumes "t \<in> set (pending (load env p bs db))"
  shows "op_phase (fst t) = Some p"
proof (cases rule: load_cases [where env = env and p = p and db = db and bs = bs])
  case (schema_failed e)
  with assms show ?thesis by (simp add: load_schema_failed)
next
  case (batch_failed ct e)
  with assms have "t \<in> set (batch env p bs)"
    using promise_all_pending_tasks [of env "batch env p bs"] by (auto simp: load_batch_failed)
  then show ?thesis by (rule batch_phase)
next
  case (ok ct rs)
  with assms show ?thesis by (simp add: load_ok)
qed

lemma load_events_nonempty: "events (load env p bs db) \<noteq> []"
  by (cases rule: load_cases [where env = env and p = p and db = db and bs = bs])
    (simp_all add: load_schema_failed load_batch_failed load_ok)

lemma load_Inr:
  assumes "result (load env p bs db) = Inr v"
  shows "pending (load env p bs db) = []"
    and "last (events (load env p bs db)) = LogSeeded p (length bs)"
    and "length (snd v) = length bs"
    and "LogSeedError q e \<notin> set (events (load env p bs db))"
    and "Settled op (Inl e) \<notin> set (events (load env p bs db))"
proof -
  have "pending (load env p bs db) = []
      \<and> last (events (load env p bs db)) = LogSeeded p (length bs)
      \<and> length (snd v) = length bs
      \<and> LogSeedError q e \<notin> set (events (load env p bs db))
      \<and> Settled op (Inl e) \<notin> set (events (load env p bs db))"
  proof (cases rule: load_cases [where env = env and p = p and db = db and bs = bs])
    case (schema_failed e)
    with assms show ?thesis by (simp add: load_schema_failed)
  next
    case (batch_failed ct e)
    with assms show ?thesis by (simp add: load_batch_failed)
  next
    case (ok ct rs)
    from promise_all_Inr_events [OF ok(2)]
    have evs: "events (promise_all env (batch env p bs) (db_after (schema_init env p db)))
        = map (\<lambda>(op, r). Settled op (Inr r)) rs"
      by simp
    from ok assms show ?thesis
      by (auto simp: load_ok batch_results_length evs
          dest: schema_init_events_shape schema_init_Inr_events)
  qed
  then show "pending (load env p bs db) = []"
    and "last (events (load env p bs db)) = LogSeeded p (length bs)"
    and "length (snd v) = length bs"
    and "LogSeedError q e \<notin> set (events (load env p bs db))"
    and "Settled op (Inl e) \<notin> set (events (load env p bs db))"
    by simp_all
qed

lemma load_Inl:
  assumes "result (load env p bs db) = Inl e"
  shows "last (events (load env p bs db)) = LogSeedError p e"
    and "LogSeedError p e \<in> set (events (load env p bs db))"
proof -
  show "last (events (load env p bs db)) = LogSeedError p e"
    using assms
    by (cases rule: load_cases [where env = env and p = p and db = db and bs = bs])
      (simp_all add: load_schema_failed load_batch_failed load_ok)
  with load_events_nonempty [of env p bs db]
  show "LogSeedError p e \<in> set (events (load env p bs db))"
    by (metis last_in_set)
qed

lemma load_LogSeedError:
  assumes "LogSeedError q e \<in> set (events (load env p bs db))"
  shows "q = p \<and> result (load env p bs db) = Inl e"
proof (cases rule: load_cases [where env = env and p = p and db = db and bs = bs])
  case (schema_failed e')
  with assms show ?thesis
    by (auto simp: load_schema_failed dest: schema_init_events_shape)
next
  case (batch_failed ct e')
  with assms show ?thesis
    by (auto simp: load_batch_failed dest: schema_init_events_shape promise_all_events_tasks)
next
  case (ok ct rs)
  with assms show ?thesis
    by (auto simp: load_ok dest: schema_init_events_shape promise_all_events_tasks)
qed

lemma is_end_attempt_phase: "is_end_attempt ev \<Longrightarrow> event_phase ev = None"
  by (cases ev rule: is_end_attempt.cases) simp_all

lemma load_no_end_attempt: "filter is_end_attempt (events (load env p bs db)) = []"
proof -
  have "\<not> is_end_attempt ev" if "ev \<in> set (events (load env p bs db))" for ev
    using load_events_phase [OF that] is_end_attempt_phase [of ev] by auto
  then show ?thesis by (simp add: filter_empty_conv)
qed

subsection \<open>Phase traces\<close>

lemma phase_trace_append: "phase_trace (xs @ ys) = phase_trace xs @ phase_trace ys"
  by (simp add: phase_trace_def List.map_filter_def)

lemma phase_trace_Cons:
  "phase_trace (ev # evs) =
     (case event_phase ev of None \<Rightarrow> phase_trace evs | Some p \<Rightarrow> phase_rank p # phase_trace evs)"
  by (simp add: phase_trace_def List.map_filter_simps split: option.splits)

lemma phase_trace_Nil: "phase_trace [] = []"
  by (simp add: phase_trace_def List.map_filter_simps)

lemma phase_trace_same:
  "\<forall>ev \<in> set evs. event_phase ev = Some p
    \<Longrightarrow> phase_trace evs = replicate (length evs) (phase_rank p)"
  by (induction evs) (simp_all add: phase_trace_Cons phase_trace_Nil)

lemma task_trace_same:
  "\<forall>t \<in> set ts. op_phase (fst t) = Some p
    \<Longrightarrow> task_trace ts = replicate (length ts) (phase_rank p)"
  by (induction ts) (simp_all add: task_trace_def List.map_filter_simps)

lemma phase_trace_drain: "phase_trace (snd (drain env ts db)) = task_trace ts"
proof (induction ts arbitrary: db)
  case Nil
  show ?case by (simp add: phase_trace_Nil task_trace_def List.map_filter_simps)
next
  case (Cons t ts)
  obtain r db' where s: "settle env t db = (r, db')" by (cases "settle env t db")
  obtain db'' evs where d: "drain env ts db' = (db'', evs)" by (cases "drain env ts db'")
  from Cons.IH [of db'] d have "phase_trace evs = task_trace ts" by simp
  with s d show ?case
    by (simp add: phase_trace_Cons task_trace_def List.map_filter_simps split: option.splits)
qed

lemma drain_events_settled:
  "ev \<in> set (snd (drain env ts db)) \<Longrightarrow> \<exists>t \<in> set ts. \<exists>r. ev = Settled (fst t) r"
proof (induction ts arbitrary: db)
  case Nil
  then show ?case by simp
next
  case (Cons t ts)
  obtain r db' where s: "settle env t db = (r, db')" by (cases "settle env t db")
  obtain db'' evs where d: "drain env ts db' = (db'', evs)" by (cases "drain env ts db'")
  from Cons.prems s d have "ev = Settled (fst t) r \<or> ev \<in> set (snd (drain env ts db'))"
    by auto
  with Cons.IH [of db'] show ?case by auto
qed

lemma loader_trace:
  "phase_trace (events (seed p env data db))
     = replicate (length (events (seed p env data db))) (phase_rank p)"
  "task_trace (pending (seed p env data db))
     = replicate (length (pending (seed p env data db))) (phase_rank p)"
  by (simp_all add: seed_load phase_trace_same task_trace_same load_events_phase
      load_pending_phase)

subsection \<open>The phases run in order\<close>

lemma sorted_same: "sorted (replicate m (r::nat) @ replicate n r)"
  by (simp add: replicate_add [symmetric] sorted_replicate)

lemma run_phases_trace:
  assumes "sorted (map phase_rank ps)"
  shows "sorted (phase_trace (events (run_phases env data ps db))
            @ task_trace (pending (run_phases env data ps db)))
       \<and> set (phase_trace (events (run_phases env data ps db))
            @ task_trace (pending (run_phases env data ps db))) \<subseteq> phase_rank ` set ps"
  using assms
proof (induction ps arbitrary: db)
  case Nil
  show ?case
    by (simp add: client_end_def console_log_def return_def phase_trace_Cons phase_trace_Nil
        task_trace_def List.map_filter_simps split: option.splits)
next
  case (Cons p ps)
  let ?L = "seed p env data db"
  from Cons.prems have later: "\<forall>q \<in> set ps. phase_rank p \<le> phase_rank q"
    and sorted_ps: "sorted (map phase_rank ps)"
    by auto
  show ?case
  proof (cases "result ?L")
    case (Inl e)
    then have eq: "run_phases env data (p # ps) db = rejected e ?L"
      by (simp add: await_call_Inl)
    have "set (replicate m (phase_rank p)) \<subseteq> phase_rank ` set (p # ps)" for m
      by auto
    then show ?thesis
      by (simp only: eq rejected_simps loader_trace sorted_same set_append Un_subset_iff)
  next
    case (Inr v)
    let ?rest = "run_phases env data ps (db_after ?L)"
    from Cons.IH [OF sorted_ps, of "db_after ?L"]
    have a: "sorted (phase_trace (events ?rest) @ task_trace (pending ?rest))"
      and b: "set (phase_trace (events ?rest) @ task_trace (pending ?rest)) \<subseteq> phase_rank ` set ps"
      by simp_all
    have ev: "events (run_phases env data (p # ps) db) = events ?L @ events ?rest"
      and pe: "pending (run_phases env data (p # ps) db) = pending ?rest"
      using Inr by (simp_all add: await_call_Inr)
    have c: "\<forall>x \<in> set (replicate (length (events ?L)) (phase_rank p)).
        \<forall>y \<in> set (phase_trace (events ?rest) @ task_trace (pending ?rest)). x \<le> y"
      using b later by auto
    have "sorted (replicate (length (events ?L)) (phase_rank p)
        @ (phase_trace (events ?rest) @ task_trace (pending ?rest)))"
      using a c by (simp only: sorted_append sorted_replicate) simp
    moreover have "set (replicate (length (events ?L)) (phase_rank p)
        @ (phase_trace (events ?rest) @ task_trace (pending ?rest))) \<subseteq> phase_rank ` set (p # ps)"
      using b by auto
    ultimately show ?thesis
      by (simp only: ev pe phase_trace_append loader_trace append_assoc) 
  qed
qed

subsection \<open>Releasing the connection\<close>

lemma releases_append: "releases (xs @ ys) = releases xs + releases ys"
  by (simp add: releases_def)

lemma release_attempts_append:
  "release_attempts (xs @ ys) = release_attempts xs + release_attempts ys"
  by (simp add: release_attempts_def)

lemma no_attempt_no_release: "filter is_end_attempt evs = [] \<Longrightarrow> releases evs = 0"
proof -
  assume "filter is_end_attempt evs = []"
  then have "\<forall>ev \<in> set evs. \<not> is_end_attempt ev" by (simp add: filter_empty_conv)
  then have "Settled OpEnd (Inr CommandOk) \<notin> set evs" by auto
  then show ?thesis by (simp add: releases_def)
qed

lemma loader_no_release:
  "filter is_end_attempt (events (seed p env data db)) = []"
  "release_attempts (events (seed p env data db)) = 0"
  "releases (events (seed p env data db)) = 0"
  by (simp_all add: seed_load load_no_end_attempt release_attempts_def no_attempt_no_release)

lemma loader_pending_phase:
  "t \<in> set (pending (seed p env data db)) \<Longrightarrow> op_phase (fst t) = Some p"
  by (simp add: seed_load load_pending_phase)

lemma run_phases_success:
  assumes "result (run_phases env data ps db) = Inr v"
  shows "pending (run_phases env data ps db) = []
       \<and> releases (events (run_phases env data ps db)) = 1
       \<and> release_attempts (events (run_phases env data ps db)) = 1
       \<and> last (events (run_phases env data ps db)) = Settled OpEnd (Inr CommandOk)
       \<and> events (run_phases env data ps db) \<noteq> []
       \<and> (\<forall>p \<in> set ps. LogSeeded p (length (bodies p env data))
             \<in> set (events (run_phases env data ps db)))
       \<and> (\<forall>q e. LogSeedError q e \<notin> set (events (run_phases env data ps db)))"
  using assms
proof (induction ps arbitrary: db)
  case Nil
  then show ?case
    by (auto simp: client_end_def console_log_def return_def releases_def release_attempts_def
        split: option.splits)
next
  case (Cons p ps)
  let ?L = "seed p env data db"
  show ?case
  proof (cases "result ?L")
    case (Inl e)
    with Cons.prems show ?thesis by (simp add: await_call_Inl rejected_simps)
  next
    case (Inr w)
    let ?rest = "run_phases env data ps (db_after ?L)"
    from Inr Cons.prems have "result ?rest = Inr v" by (simp add: await_call_Inr)
    note IH = Cons.IH [OF this]
    have ev: "events (run_phases env data (p # ps) db) = events ?L @ events ?rest"
      and pe: "pending (run_phases env data (p # ps) db) = pending ?rest"
      using Inr by (simp_all add: await_call_Inr)
    from Inr have L: "result (load env p (bodies p env data) db) = Inr w"
      by (simp add: seed_load)
    have seeded: "LogSeeded p (length (bodies p env data)) \<in> set (events ?L)"
      using load_Inr(2) [OF L] load_events_nonempty [of env p "bodies p env data" db]
      by (metis last_in_set seed_load)
    have no_err: "LogSeedError q e \<notin> set (events ?L)" for q e
      using load_Inr(4) [OF L] by (simp add: seed_load)
    from IH seeded no_err show ?thesis
      by (simp del: run_phases.simps
          add: ev pe releases_append release_attempts_append loader_no_release)
  qed
qed

lemma run_phases_rejected:
  assumes "result (run_phases env data ps db) = Inl e"
  shows "releases (events (run_phases env data ps db)) = 0
       \<and> (\<forall>t \<in> set (pending (run_phases env data ps db)). op_phase (fst t) \<noteq> None)"
  using assms
proof (induction ps arbitrary: db)
  case Nil
  then show ?case
    by (auto simp: client_end_def console_log_def return_def releases_def split: option.splits)
next
  case (Cons p ps)
  let ?L = "seed p env data db"
  show ?case
  proof (cases "result ?L")
    case (Inl e')
    then show ?thesis
      by (auto simp: await_call_Inl rejected_simps loader_no_release
          dest: loader_pending_phase)
  next
    case (Inr w)
    let ?rest = "run_phases env data ps (db_after ?L)"
    from Inr Cons.prems have "result ?rest = Inl e" by (simp add: await_call_Inr)
    from Cons.IH [OF this] Inr show ?thesis
      by (simp add: await_call_Inr releases_append loader_no_release)
  qed
qed

lemma run_phases_failure:
  assumes "sorted (map phase_rank ps)"
    and "LogSeedError q e \<in> set (events (run_phases env data ps db))"
  shows "q \<in> set ps
       \<and> result (run_phases env data ps db) = Inl e
       \<and> release_attempts (events (run_phases env data ps db)) = 0
       \<and> (\<forall>r \<in> set (phase_trace (events (run_phases env data ps db))
                      @ task_trace (pending (run_phases env data ps db))). r \<le> phase_rank q)"
  using assms
proof (induction ps arbitrary: db)
  case Nil
  then show ?case
    by (auto simp: client_end_def console_log_def return_def split: option.splits)
next
  case (Cons p ps)
  let ?L = "seed p env data db"
  from Cons.prems have later: "\<forall>q \<in> set ps. phase_rank p \<le> phase_rank q"
    and sorted_ps: "sorted (map phase_rank ps)"
    by auto
  show ?case
  proof (cases "result ?L")
    case (Inl e')
    then have eq: "run_phases env data (p # ps) db = rejected e' ?L"
      by (simp add: await_call_Inl)
    with Cons.prems have "LogSeedError q e \<in> set (events (load env p (bodies p env data) db))"
      by (simp add: rejected_simps seed_load)
    from load_LogSeedError [OF this] Inl have "q = p" and "e' = e"
      by (simp_all add: seed_load)
    then show ?thesis
      by (auto simp del: run_phases.simps
          simp add: eq rejected_simps loader_trace loader_no_release)
  next
    case (Inr w)
    let ?rest = "run_phases env data ps (db_after ?L)"
    have ev: "events (run_phases env data (p # ps) db) = events ?L @ events ?rest"
      and pe: "pending (run_phases env data (p # ps) db) = pending ?rest"
      and re: "result (run_phases env data (p # ps) db) = result ?rest"
      using Inr by (simp_all add: await_call_Inr)
    have "LogSeedError q e \<notin> set (events ?L)"
      using load_LogSeedError [of q e env p "bodies p env data" db] Inr
      by (auto simp: seed_load)
    with Cons.prems ev have "LogSeedError q e \<in> set (events ?rest)" by simp
    from Cons.IH [OF sorted_ps this]
    have q: "q \<in> set ps" and r: "result ?rest = Inl e"
      and a: "release_attempts (events ?rest) = 0"
      and b: "\<forall>r \<in> set (phase_trace (events ?rest) @ task_trace (pending ?rest)). r \<le> phase_rank q"
      by simp_all
    from q later have "phase_rank p \<le> phase_rank q" by simp
    with q r a b show ?thesis
      by (auto simp del: run_phases.simps
          simp add: ev pe re release_attempts_append loader_no_release phase_trace_append
            loader_trace)
  qed
qed

subsection \<open>The whole run\<close>

lemma main_connect_failed:
  "fault env OpConnect = Some e
    \<Longrightarrow> main env data db =
        \<lparr>result = Inl e, db_after = db, events = [Settled OpConnect (Inl e)], pending = []\<rparr>"
  by (simp add: main_def db_connect_def)

lemma main_connected:
  "fault env OpConnect = None
    \<Longrightarrow> main env data db =
        console_log (Settled OpConnect (Inr CommandOk))
          (run_phases env data [Users, Customers, Invoices, Revenue] db)"
  by (simp add: main_run_phases db_connect_def)

lemma main_catch_fulfilled:
  "result (main env data db) = Inr v
    \<Longrightarrow> main_catch env data db = (db_after (main env data db), events (main env data db))"
  by (simp add: main_catch_def Let_def)

lemma main_catch_rejected:
  "result (main env data db) = Inl e
    \<Longrightarrow> main_catch env data db =
        (fst (drain env (pending (main env data db)) (db_after (main env data db))),
         events (main env data db) @ LogMainError e
           # snd (drain env (pending (main env data db)) (db_after (main env data db))))"
  by (simp add: main_catch_def Let_def split: prod.splits)

lemma sorted_phases: "sorted (map phase_rank [Users, Customers, Invoices, Revenue])"
  by simp

lemmas sample_defs = sample_data_def nameless_data_def seeded_database_def

subsection \<open>Two runs, evaluated\<close>

lemma sample_main:
  "main quiet_env sample_data empty_database =
     \<lparr>result = Inr (), db_after = seeded_database,
      events =
        [Settled OpConnect (Inr CommandOk),
         Settled (OpExtension Users) (Inr CommandOk),
         Settled (OpCreate Users) (Inr CommandOk), LogCreated Users,
         Settled (OpInsert Users 0) (Inr Inserted), LogSeeded Users 1,
         Settled (OpExtension Customers) (Inr CommandOk),
         Settled (OpCreate Customers) (Inr CommandOk), LogCreated Customers,
         Settled (OpInsert Customers 0) (Inr Inserted), LogSeeded Customers 1,
         Settled (OpExtension Invoices) (Inr CommandOk),
         Settled (OpCreate Invoices) (Inr CommandOk), LogCreated Invoices,
         Settled (OpInsert Invoices 0) (Inr Inserted), LogSeeded Invoices 1,
         Settled (OpCreate Revenue) (Inr CommandOk), LogCreated Revenue,
         Settled (OpInsert Revenue 0) (Inr Inserted), LogSeeded Revenue 1,
         Settled OpEnd (Inr CommandOk)],
      pending = []\<rparr>"
  by (simp add: run_defs sample_defs cong: run_congs)

lemma nameless_main:
  "main quiet_env nameless_data empty_database =
     \<lparr>result = Inl (NotNullViolation ''name''),
      db_after = empty_database\<lparr>uuid_ossp := True, users_table := Some []\<rparr>,
      events =
        [Settled OpConnect (Inr CommandOk),
         Settled (OpExtension Users) (Inr CommandOk),
         Settled (OpCreate Users) (Inr CommandOk), LogCreated Users,
         Settled (OpInsert Users 0) (Inl (NotNullViolation ''name'')),
         LogSeedError Users (NotNullViolation ''name'')],
      pending =
        [(OpInsert Users 1,
          Inr (InsertUser (Some 2) (Some ''Bob'') (Some ''bob@x.com'')
                (Some ''$2b$10$saltsecret'')))]\<rparr>"
  by (simp add: run_defs sample_defs cong: run_congs)

lemma nameless_trace:
  "snd (main_catch quiet_env nameless_data empty_database) =
     [Settled OpConnect (Inr CommandOk),
      Settled (OpExtension Users) (Inr CommandOk),
      Settled (OpCreate Users) (Inr CommandOk), LogCreated Users,
      Settled (OpInsert Users 0) (Inl (NotNullViolation ''name'')),
      LogSeedError Users (NotNullViolation ''name''),
      LogMainError (NotNullViolation ''name''),
      Settled (OpInsert Users 1) (Inr Inserted)]"
  by (simp add: main_catch_def nameless_main)
    (simp add: run_defs cong: run_congs)

lemma sample_trace:
  "snd (main_catch quiet_env sample_data empty_database)
     = events (main quiet_env sample_data empty_database)"
  by (simp add: main_catch_def sample_main)


subsection \<open>The trace of a whole run\<close>

lemma main_pending_fulfilled:
  "result (main env data db) = Inr v \<Longrightarrow> pending (main env data db) = []"
proof (cases "fault env OpConnect")
  case None
  assume "result (main env data db) = Inr v"
  with None have "result (run_phases env data [Users, Customers, Invoices, Revenue] db) = Inr v"
    by (simp add: main_connected console_log_def)
  from run_phases_success [OF this] None show ?thesis
    by (simp add: main_connected console_log_def)
next
  case (Some e)
  assume "result (main env data db) = Inr v"
  with Some show ?thesis by (simp add: main_connect_failed)
qed

lemma main_catch_phase_trace:
  "phase_trace (snd (main_catch env data db))
     = phase_trace (events (main env data db)) @ task_trace (pending (main env data db))"
proof (cases "result (main env data db)")
  case (Inl e)
  then show ?thesis
    by (simp add: main_catch_rejected phase_trace_append phase_trace_Cons phase_trace_drain)
next
  case (Inr v)
  with main_pending_fulfilled [OF Inr] show ?thesis
    by (simp add: main_catch_fulfilled task_trace_def List.map_filter_simps)
qed

lemma main_trace_run_phases:
  "fault env OpConnect = None
    \<Longrightarrow> phase_trace (events (main env data db)) @ task_trace (pending (main env data db))
      = phase_trace (events (run_phases env data [Users, Customers, Invoices, Revenue] db))
        @ task_trace (pending (run_phases env data [Users, Customers, Invoices, Revenue] db))"
  by (simp add: main_connected console_log_def phase_trace_Cons)

lemma main_trace_connect_failed:
  "fault env OpConnect = Some e
    \<Longrightarrow> phase_trace (events (main env data db)) @ task_trace (pending (main env data db)) = []"
  by (simp add: main_connect_failed phase_trace_Cons phase_trace_Nil task_trace_def
      List.map_filter_simps)

lemma LogSeedError_main:
  assumes "LogSeedError p e \<in> set (snd (main_catch env data db))"
  shows "fault env OpConnect = None
       \<and> LogSeedError p e \<in> set (events (run_phases env data [Users, Customers, Invoices, Revenue] db))"
proof -
  have in_main: "LogSeedError p e \<in> set (events (main env data db))"
  proof (cases "result (main env data db)")
    case (Inl e')
    with assms show ?thesis
      by (auto simp: main_catch_rejected dest: drain_events_settled)
  next
    case (Inr v)
    with assms show ?thesis by (simp add: main_catch_fulfilled)
  qed
  show ?thesis
  proof (cases "fault env OpConnect")
    case None
    with in_main show ?thesis by (simp add: main_connected console_log_def)
  next
    case (Some e')
    with in_main show ?thesis by (simp add: main_connect_failed)
  qed
qed

subsection \<open>C7: the phases run one after the other, in the fixed order\<close>

text \<open>
  C7. \<open>phase_trace\<close> lists, for every event of the run that belongs to a phase (a
  statement or an insert of its loader settling, one of its log lines), the position of
  that phase in Users, Customers, Invoices, Revenue. The list is sorted: every event of a
  phase comes before every event of a later phase, so the phases neither overlap nor run
  out of order. Once the catch block of a phase has logged a failure, no event of a later
  phase exists. When \<^verbatim>\<open>main\<close> fulfils, each of the four loaders has logged its
  completion.
\<close>

theorem phases_sequential:
  "sorted (phase_trace (snd (main_catch env data db)))
   \<and> (\<forall>p e. LogSeedError p e \<in> set (snd (main_catch env data db))
        \<longrightarrow> (\<forall>r \<in> set (phase_trace (snd (main_catch env data db))). r \<le> phase_rank p))
   \<and> (result (main env data db) = Inr ()
        \<longrightarrow> (\<forall>p. LogSeeded p (length (bodies p env data))
               \<in> set (snd (main_catch env data db))))"
proof (intro conjI allI impI)
  show "sorted (phase_trace (snd (main_catch env data db)))"
  proof (cases "fault env OpConnect")
    case None
    with run_phases_trace [OF sorted_phases, of env data db] show ?thesis
      by (simp only: main_catch_phase_trace main_trace_run_phases)
  next
    case (Some e)
    then show ?thesis by (simp only: main_catch_phase_trace main_trace_connect_failed sorted0)
  qed
next
  fix p e
  assume "LogSeedError p e \<in> set (snd (main_catch env data db))"
  from LogSeedError_main [OF this]
  have c: "fault env OpConnect = None"
    and l: "LogSeedError p e \<in> set (events (run_phases env data [Users, Customers, Invoices, Revenue] db))"
    by simp_all
  from run_phases_failure [OF sorted_phases l] c
  show "\<forall>r \<in> set (phase_trace (snd (main_catch env data db))). r \<le> phase_rank p"
    by (simp only: main_catch_phase_trace main_trace_run_phases) simp
next
  fix p
  assume ok: "result (main env data db) = Inr ()"
  then have c: "fault env OpConnect = None"
    by (cases "fault env OpConnect") (simp_all add: main_connect_failed)
  with ok have "result (run_phases env data [Users, Customers, Invoices, Revenue] db) = Inr ()"
    by (simp add: main_connected console_log_def)
  from run_phases_success [OF this]
  have "\<forall>p \<in> set [Users, Customers, Invoices, Revenue].
      LogSeeded p (length (bodies p env data))
        \<in> set (events (run_phases env data [Users, Customers, Invoices, Revenue] db))"
    by blast
  moreover have "p \<in> set [Users, Customers, Invoices, Revenue]"
    by (cases p) simp_all
  ultimately have "LogSeeded p (length (bodies p env data))
      \<in> set (events (run_phases env data [Users, Customers, Invoices, Revenue] db))"
    by blast
  with c ok show "LogSeeded p (length (bodies p env data)) \<in> set (snd (main_catch env data db))"
    by (simp add: main_catch_fulfilled main_connected console_log_def)
qed

theorem phases_sequential_witness:
  "LogSeedError Users (NotNullViolation ''name'')
     \<in> set (snd (main_catch quiet_env nameless_data empty_database))
   \<and> list_all (\<lambda>r. r \<le> phase_rank Users)
       (phase_trace (snd (main_catch quiet_env nameless_data empty_database)))
   \<and> result (main quiet_env sample_data empty_database) = Inr ()
   \<and> sorted (phase_trace (snd (main_catch quiet_env sample_data empty_database)))
   \<and> phase_trace (snd (main_catch quiet_env sample_data empty_database))
       = [0, 0, 0, 0, 0, 1, 1, 1, 1, 1, 2, 2, 2, 2, 2, 3, 3, 3, 3]
   \<and> LogSeeded Revenue 1 \<in> set (snd (main_catch quiet_env sample_data empty_database))"
proof -
  have failed: "LogSeedError Users (NotNullViolation ''name'')
      \<in> set (snd (main_catch quiet_env nameless_data empty_database))"
    by (simp add: nameless_trace)
  have fulfilled: "result (main quiet_env sample_data empty_database) = Inr ()"
    by (simp add: sample_main)
  have n: "length (bodies Revenue quiet_env sample_data) = 1"
    by (simp add: sample_data_def)
  have t: "phase_trace (snd (main_catch quiet_env sample_data empty_database))
      = [0, 0, 0, 0, 0, 1, 1, 1, 1, 1, 2, 2, 2, 2, 2, 3, 3, 3, 3]"
    by (simp add: sample_trace sample_main phase_trace_def List.map_filter_simps)
  from phases_sequential [of quiet_env nameless_data empty_database] failed
  have "\<forall>r \<in> set (phase_trace (snd (main_catch quiet_env nameless_data empty_database))).
      r \<le> phase_rank Users"
    by blast
  moreover from phases_sequential [of quiet_env sample_data empty_database] fulfilled n
  have "sorted (phase_trace (snd (main_catch quiet_env sample_data empty_database)))"
    and "LogSeeded Revenue 1 \<in> set (snd (main_catch quiet_env sample_data empty_database))"
    by (metis, metis)
  ultimately show ?thesis using failed fulfilled t
    by (simp add: list_all_iff)
qed


subsection \<open>C1: when the connection is released\<close>

lemma drain_no_end_attempt:
  assumes "\<forall>t \<in> set ts. op_phase (fst t) \<noteq> None"
  shows "filter is_end_attempt (snd (drain env ts db)) = []"
proof -
  have "\<not> is_end_attempt ev" if "ev \<in> set (snd (drain env ts db))" for ev
  proof -
    from drain_events_settled [OF that] obtain t r
      where "t \<in> set ts" and "ev = Settled (fst t) r" by blast
    with assms is_end_attempt_phase [of ev] show ?thesis by auto
  qed
  then show ?thesis by (simp add: filter_empty_conv)
qed

lemma main_rejected_no_release:
  assumes "result (main env data db) = Inl e"
  shows "releases (events (main env data db)) = 0"
    and "filter is_end_attempt (snd (drain env (pending (main env data db)) d)) = []"
proof -
  have "releases (events (main env data db)) = 0
      \<and> (\<forall>t \<in> set (pending (main env data db)). op_phase (fst t) \<noteq> None)"
  proof (cases "fault env OpConnect")
    case None
    with assms have "result (run_phases env data [Users, Customers, Invoices, Revenue] db) = Inl e"
      by (simp add: main_connected console_log_def)
    from run_phases_rejected [OF this] None show ?thesis
      by (simp add: main_connected console_log_def releases_def)
  next
    case (Some e')
    then show ?thesis by (simp add: main_connect_failed releases_def)
  qed
  then show "releases (events (main env data db)) = 0"
    and "filter is_end_attempt (snd (drain env (pending (main env data db)) d)) = []"
    by (simp_all add: drain_no_end_attempt)
qed

text \<open>
  C1, as the script behaves. The connection is released exactly once, as the last thing
  the run does, when \<^verbatim>\<open>main\<close> fulfils. When \<^verbatim>\<open>main\<close> rejects, the error is logged by the
  top-level handler and the connection is not released. When a loader's catch block has
  logged a failure, \<^verbatim>\<open>main\<close> rejects with that error, no later phase has any event, and
  \<^verbatim>\<open>client.end()\<close> is not even attempted.
\<close>

theorem connection_release:
  "(result (main env data db) = Inr ()
      \<longrightarrow> releases (snd (main_catch env data db)) = 1
        \<and> release_attempts (snd (main_catch env data db)) = 1
        \<and> last (snd (main_catch env data db)) = Settled OpEnd (Inr CommandOk))
   \<and> (\<forall>e. result (main env data db) = Inl e
        \<longrightarrow> LogMainError e \<in> set (snd (main_catch env data db))
          \<and> releases (snd (main_catch env data db)) = 0)
   \<and> (\<forall>p e. LogSeedError p e \<in> set (snd (main_catch env data db))
        \<longrightarrow> result (main env data db) = Inl e
          \<and> LogMainError e \<in> set (snd (main_catch env data db))
          \<and> release_attempts (snd (main_catch env data db)) = 0
          \<and> (\<forall>r \<in> set (phase_trace (snd (main_catch env data db))). r \<le> phase_rank p))"
proof (intro conjI allI impI)
  assume ok: "result (main env data db) = Inr ()"
  then have c: "fault env OpConnect = None"
    by (cases "fault env OpConnect") (simp_all add: main_connect_failed)
  with ok have "result (run_phases env data [Users, Customers, Invoices, Revenue] db) = Inr ()"
    by (simp add: main_connected console_log_def)
  note rp = run_phases_success [OF this]
  from rp c ok show "releases (snd (main_catch env data db)) = 1"
    by (simp add: main_catch_fulfilled main_connected console_log_def releases_def)
  from rp c ok show "release_attempts (snd (main_catch env data db)) = 1"
    by (simp add: main_catch_fulfilled main_connected console_log_def release_attempts_def)
  from rp c ok show "last (snd (main_catch env data db)) = Settled OpEnd (Inr CommandOk)"
    by (simp add: main_catch_fulfilled main_connected console_log_def)
next
  fix e
  assume rej: "result (main env data db) = Inl e"
  then show "LogMainError e \<in> set (snd (main_catch env data db))"
    by (simp add: main_catch_rejected)
  have "releases (snd (drain env (pending (main env data db)) (db_after (main env data db)))) = 0"
    by (rule no_attempt_no_release) (rule main_rejected_no_release(2) [OF rej])
  then have "releases (LogMainError e
      # snd (drain env (pending (main env data db)) (db_after (main env data db)))) = 0"
    by (simp add: releases_def)
  with main_rejected_no_release(1) [OF rej]
  show "releases (snd (main_catch env data db)) = 0"
    by (simp only: main_catch_rejected [OF rej] snd_conv releases_append)
next
  fix p e
  assume "LogSeedError p e \<in> set (snd (main_catch env data db))"
  from LogSeedError_main [OF this]
  have c: "fault env OpConnect = None"
    and l: "LogSeedError p e \<in> set (events (run_phases env data [Users, Customers, Invoices, Revenue] db))"
    by simp_all
  note rp = run_phases_failure [OF sorted_phases l]
  from rp c show rej: "result (main env data db) = Inl e"
    by (simp add: main_connected console_log_def)
  then show "LogMainError e \<in> set (snd (main_catch env data db))"
    by (simp add: main_catch_rejected)
  from rp c have "release_attempts (events (main env data db)) = 0"
    by (simp add: main_connected console_log_def release_attempts_def)
  with main_rejected_no_release(2) [OF rej]
  show "release_attempts (snd (main_catch env data db)) = 0"
    by (simp add: main_catch_rejected [OF rej] release_attempts_def)
  from rp c show "\<forall>r \<in> set (phase_trace (snd (main_catch env data db))). r \<le> phase_rank p"
    by (simp only: main_catch_phase_trace main_trace_run_phases) simp
qed

theorem connection_release_witness:
  "result (main quiet_env sample_data empty_database) = Inr ()
   \<and> releases (snd (main_catch quiet_env sample_data empty_database)) = 1
   \<and> last (snd (main_catch quiet_env sample_data empty_database)) = Settled OpEnd (Inr CommandOk)
   \<and> LogSeedError Users (NotNullViolation ''name'')
       \<in> set (snd (main_catch quiet_env nameless_data empty_database))
   \<and> result (main quiet_env nameless_data empty_database) = Inl (NotNullViolation ''name'')
   \<and> LogMainError (NotNullViolation ''name'')
       \<in> set (snd (main_catch quiet_env nameless_data empty_database))
   \<and> releases (snd (main_catch quiet_env nameless_data empty_database)) = 0
   \<and> release_attempts (snd (main_catch quiet_env nameless_data empty_database)) = 0"
proof -
  have fulfilled: "result (main quiet_env sample_data empty_database) = Inr ()"
    by (simp add: sample_main)
  have failed: "LogSeedError Users (NotNullViolation ''name'')
      \<in> set (snd (main_catch quiet_env nameless_data empty_database))"
    by (simp add: nameless_trace)
  from connection_release [of quiet_env sample_data empty_database] fulfilled
  have a: "releases (snd (main_catch quiet_env sample_data empty_database)) = 1
      \<and> last (snd (main_catch quiet_env sample_data empty_database)) = Settled OpEnd (Inr CommandOk)"
    by blast
  from connection_release [of quiet_env nameless_data empty_database] failed
  have b: "result (main quiet_env nameless_data empty_database) = Inl (NotNullViolation ''name'')
      \<and> LogMainError (NotNullViolation ''name'')
          \<in> set (snd (main_catch quiet_env nameless_data empty_database))
      \<and> release_attempts (snd (main_catch quiet_env nameless_data empty_database)) = 0"
    by blast
  from connection_release [of quiet_env nameless_data empty_database] b
  have c: "releases (snd (main_catch quiet_env nameless_data empty_database)) = 0"
    by blast
  from fulfilled failed a b c show ?thesis by simp
qed

text \<open>
  The claim as stated fails: with a users fixture whose first record has no name, the
  users loader fails, and the run ends without any \<^verbatim>\<open>client.end()\<close>.
\<close>

theorem release_on_failure_counterexample:
  "snd (main_catch quiet_env nameless_data empty_database) =
     [Settled OpConnect (Inr CommandOk),
      Settled (OpExtension Users) (Inr CommandOk),
      Settled (OpCreate Users) (Inr CommandOk), LogCreated Users,
      Settled (OpInsert Users 0) (Inl (NotNullViolation ''name'')),
      LogSeedError Users (NotNullViolation ''name''),
      LogMainError (NotNullViolation ''name''),
      Settled (OpInsert Users 1) (Inr Inserted)]
   \<and> releases (snd (main_catch quiet_env nameless_data empty_database)) \<noteq> 1
   \<and> release_attempts (snd (main_catch quiet_env nameless_data empty_database)) = 0"
  by (simp add: nameless_trace releases_def release_attempts_def)

subsection \<open>C4: what has settled when a loader reports\<close>

lemma promise_all_pending_unsettled:
  assumes "distinct (map fst ts)" and "t' \<in> set (pending (promise_all env ts db))"
  shows "Settled (fst t') r \<notin> set (events (promise_all env ts db))"
  using assms
proof (induction ts arbitrary: db)
  case Nil
  then show ?case by (simp add: return_def)
next
  case (Cons t ts)
  obtain x db' where s: "settle env t db = (x, db')" by (cases "settle env t db")
  show ?case
  proof (cases x)
    case (Inl e)
    with s Cons.prems have "t' \<in> set ts" by simp
    then have "fst t' \<in> fst ` set ts" by (rule imageI)
    moreover from Cons.prems(1) have "fst t \<notin> fst ` set ts" by simp
    ultimately have "fst t' \<noteq> fst t" by metis
    with s Inl show ?thesis by simp
  next
    case (Inr v)
    with s Cons.prems have p: "t' \<in> set (pending (promise_all env ts db'))"
      by (simp add: Let_def)
    with promise_all_pending_tasks [of env ts db'] have "t' \<in> set ts" by blast
    then have "fst t' \<in> fst ` set ts" by (rule imageI)
    moreover from Cons.prems(1) have "fst t \<notin> fst ` set ts" by simp
    ultimately have ne: "fst t' \<noteq> fst t" by metis
    note ne
    moreover from Cons.IH [OF _ p] Cons.prems(1)
    have "Settled (fst t') r \<notin> set (events (promise_all env ts db'))" by simp
    ultimately show ?thesis using s Inr by (simp add: Let_def)
  qed
qed

lemma load_pending_unsettled:
  assumes "t \<in> set (pending (load env p bs db))"
  shows "Settled (fst t) r \<notin> set (events (load env p bs db))"
proof (cases rule: load_cases [where env = env and p = p and db = db and bs = bs])
  case (schema_failed e)
  with assms show ?thesis by (simp add: load_schema_failed)
next
  case (batch_failed ct e)
  let ?B = "promise_all env (batch env p bs) (db_after (schema_init env p db))"
  from batch_failed assms have t: "t \<in> set (pending ?B)"
    by (simp add: load_batch_failed)
  from promise_all_pending_unsettled [OF distinct_batch_ops t]
  have a: "Settled (fst t) r \<notin> set (events ?B)" .
  from t promise_all_pending_tasks [of env "batch env p bs"] have "t \<in> set (batch env p bs)"
    by blast
  then have "fst t \<in> fst ` set (batch env p bs)" by (rule imageI)
  then obtain i where i: "fst t = OpInsert p i" unfolding batch_ops by blast
  have b: "Settled (fst t) r \<notin> set (events (schema_init env p db))"
    using schema_init_events_shape [of "Settled (fst t) r" env p db] i by auto
  from a b batch_failed show ?thesis by (simp add: load_batch_failed)
next
  case (ok ct rs)
  with assms show ?thesis by (simp add: load_ok)
qed

lemma load_Inr_all_settled:
  assumes "result (load env p bs db) = Inr v" and "i < length bs"
  shows "\<exists>r. Settled (OpInsert p i) (Inr r) \<in> set (butlast (events (load env p bs db)))"
proof (cases rule: load_cases [where env = env and p = p and db = db and bs = bs])
  case (schema_failed e)
  with assms show ?thesis by (simp add: load_schema_failed)
next
  case (batch_failed ct e)
  with assms show ?thesis by (simp add: load_batch_failed)
next
  case (ok ct rs)
  let ?B = "promise_all env (batch env p bs) (db_after (schema_init env p db))"
  from promise_all_Inr_events [OF ok(2)]
  have evs: "events ?B = map (\<lambda>(op, r). Settled op (Inr r)) rs"
    and ops: "map fst rs = map fst (batch env p bs)"
    by simp_all
  from ops have "set (map fst rs) = set (map fst (batch env p bs))" by (rule arg_cong)
  then have "fst ` set rs = OpInsert p ` {..<length bs}"
    by (simp only: set_map batch_ops)
  with assms(2) have "OpInsert p i \<in> fst ` set rs" by blast
  then obtain r where "(OpInsert p i, r) \<in> set rs" by force
  then have "Settled (OpInsert p i) (Inr r) \<in> set (events ?B)"
    unfolding evs by force
  with ok show ?thesis
    by (intro exI [of _ r]) (simp add: load_ok butlast_append)
qed

lemma load_Inl_first_failure:
  assumes "result (load env p bs db) = Inl e"
  shows "\<exists>evs op. events (load env p bs db) = evs @ [Settled op (Inl e), LogSeedError p e]
           \<and> (\<forall>op' e'. Settled op' (Inl e') \<notin> set evs)"
proof (cases rule: load_cases [where env = env and p = p and db = db and bs = bs])
  case (schema_failed e')
  with assms have e: "e' = e" by (simp add: load_schema_failed)
  from schema_init_Inl_events [OF schema_failed] obtain evs op
    where a: "events (schema_init env p db) = evs @ [Settled op (Inl e')]"
      and b: "\<forall>ev \<in> set evs. \<exists>op v. ev = Settled op (Inr v)"
    by blast
  from b have "\<forall>op' e'. Settled op' (Inl e') \<notin> set evs" by auto
  with a e schema_failed show ?thesis
    by (intro exI [of _ evs] exI [of _ op]) (simp add: load_schema_failed)
next
  case (batch_failed ct e')
  let ?S = "schema_init env p db"
  let ?B = "promise_all env (batch env p bs) (db_after ?S)"
  from batch_failed assms have e: "e' = e" by (simp add: load_batch_failed)
  from promise_all_Inl_events [OF batch_failed(2)] obtain rs t
    where a: "events ?B = map (\<lambda>(op, r). Settled op (Inr r)) rs @ [Settled (fst t) (Inl e')]"
    by auto
  have "\<forall>op' e'. Settled op' (Inl e')
      \<notin> set (events ?S @ LogCreated p # map (\<lambda>(op, r). Settled op (Inr r)) rs)"
    using schema_init_Inr_events [OF batch_failed(1)] by auto
  with a e batch_failed show ?thesis
    by (intro exI [of _ "events ?S @ LogCreated p # map (\<lambda>(op, r). Settled op (Inr r)) rs"]
        exI [of _ "fst t"]) (simp add: load_batch_failed)
next
  case (ok ct rs)
  with assms show ?thesis by (simp add: load_ok)
qed

text \<open>
  C4, as the script behaves. When a loader fulfils, nothing it dispatched is pending:
  every insert of the batch has settled successfully before the completion is logged.
  When it rejects, it does so with the first failure, at once: the failing settlement is
  immediately followed by the catch block's log line, no failure precedes it, and the
  inserts still pending at that moment have not settled.
\<close>

theorem loader_reports:
  "(\<forall>v. result (seed p env data db) = Inr v
      \<longrightarrow> pending (seed p env data db) = []
        \<and> last (events (seed p env data db)) = LogSeeded p (length (bodies p env data))
        \<and> (\<forall>i < length (bodies p env data).
             \<exists>r. Settled (OpInsert p i) (Inr r) \<in> set (butlast (events (seed p env data db)))))
   \<and> (\<forall>e. result (seed p env data db) = Inl e
      \<longrightarrow> (\<exists>evs op. events (seed p env data db) = evs @ [Settled op (Inl e), LogSeedError p e]
              \<and> (\<forall>op' e'. Settled op' (Inl e') \<notin> set evs))
        \<and> (\<forall>t \<in> set (pending (seed p env data db)).
              \<forall>r. Settled (fst t) r \<notin> set (events (seed p env data db))))"
  unfolding seed_load
  using load_Inr(1,2) [of env p "bodies p env data" db] load_Inr_all_settled [of env p "bodies p env data" db]
    load_Inl_first_failure [of env p "bodies p env data" db]
    load_pending_unsettled [of _ env p "bodies p env data" db]
  by blast


lemma sample_seedUsers:
  "seedUsers quiet_env (users sample_data) empty_database =
     \<lparr>result = Inr (CommandOk, [Inserted]),
      db_after = empty_database
        \<lparr>uuid_ossp := True,
         users_table := Some [\<lparr>u_id = 1, u_name = ''Ann'', u_email = ''ann@x.com'',
                                 u_password = ''$2b$10$saltplain''\<rparr>]\<rparr>,
      events =
        [Settled (OpExtension Users) (Inr CommandOk),
         Settled (OpCreate Users) (Inr CommandOk), LogCreated Users,
         Settled (OpInsert Users 0) (Inr Inserted), LogSeeded Users 1],
      pending = []\<rparr>"
  by (simp add: run_defs sample_defs cong: run_congs)

lemma nameless_seedUsers:
  "seedUsers quiet_env (users nameless_data) empty_database =
     \<lparr>result = Inl (NotNullViolation ''name''),
      db_after = empty_database\<lparr>uuid_ossp := True, users_table := Some []\<rparr>,
      events =
        [Settled (OpExtension Users) (Inr CommandOk),
         Settled (OpCreate Users) (Inr CommandOk), LogCreated Users,
         Settled (OpInsert Users 0) (Inl (NotNullViolation ''name'')),
         LogSeedError Users (NotNullViolation ''name'')],
      pending =
        [(OpInsert Users 1,
          Inr (InsertUser (Some 2) (Some ''Bob'') (Some ''bob@x.com'')
                (Some ''$2b$10$saltsecret'')))]\<rparr>"
  by (simp add: run_defs sample_defs cong: run_congs)

theorem loader_reports_witness:
  "result (seed Users quiet_env sample_data empty_database) = Inr (CommandOk, [Inserted])
   \<and> pending (seed Users quiet_env sample_data empty_database) = []
   \<and> last (events (seed Users quiet_env sample_data empty_database)) = LogSeeded Users 1
   \<and> result (seed Users quiet_env nameless_data empty_database) = Inl (NotNullViolation ''name'')
   \<and> (OpInsert Users 1,
        Inr (InsertUser (Some 2) (Some ''Bob'') (Some ''bob@x.com'') (Some ''$2b$10$saltsecret'')))
       \<in> set (pending (seed Users quiet_env nameless_data empty_database))
   \<and> Settled (OpInsert Users 1) (Inr Inserted)
       \<notin> set (events (seed Users quiet_env nameless_data empty_database))"
proof -
  have ok: "result (seed Users quiet_env sample_data empty_database) = Inr (CommandOk, [Inserted])"
    by (simp add: sample_seedUsers)
  have n: "length (bodies Users quiet_env sample_data) = 1"
    by (simp add: sample_data_def)
  have failed: "result (seed Users quiet_env nameless_data empty_database)
      = Inl (NotNullViolation ''name'')"
    by (simp add: nameless_seedUsers)
  have left: "(OpInsert Users 1,
        Inr (InsertUser (Some 2) (Some ''Bob'') (Some ''bob@x.com'') (Some ''$2b$10$saltsecret'')))
       \<in> set (pending (seed Users quiet_env nameless_data empty_database))"
    by (simp add: nameless_seedUsers)
  from loader_reports [of Users quiet_env sample_data empty_database] ok n
  have a: "pending (seed Users quiet_env sample_data empty_database) = []
      \<and> last (events (seed Users quiet_env sample_data empty_database)) = LogSeeded Users 1"
    by simp
  from loader_reports [of Users quiet_env nameless_data empty_database] failed
  have "\<forall>t \<in> set (pending (seed Users quiet_env nameless_data empty_database)).
      \<forall>r. Settled (fst t) r \<notin> set (events (seed Users quiet_env nameless_data empty_database))"
    by simp
  with left have b: "Settled (OpInsert Users 1) (Inr Inserted)
      \<notin> set (events (seed Users quiet_env nameless_data empty_database))"
    by force
  from ok failed left a b show ?thesis by simp
qed

text \<open>
  The claim as stated fails: when the first of two user records is rejected, the users
  loader has thrown while the insert of the second record is still pending.
\<close>

theorem loader_waits_counterexample:
  "result (seedUsers quiet_env (users nameless_data) empty_database)
     = Inl (NotNullViolation ''name'')
   \<and> events (seedUsers quiet_env (users nameless_data) empty_database) =
       [Settled (OpExtension Users) (Inr CommandOk),
        Settled (OpCreate Users) (Inr CommandOk), LogCreated Users,
        Settled (OpInsert Users 0) (Inl (NotNullViolation ''name'')),
        LogSeedError Users (NotNullViolation ''name'')]
   \<and> pending (seedUsers quiet_env (users nameless_data) empty_database) =
       [(OpInsert Users 1,
         Inr (InsertUser (Some 2) (Some ''Bob'') (Some ''bob@x.com'')
               (Some ''$2b$10$saltsecret'')))]
   \<and> pending (seedUsers quiet_env (users nameless_data) empty_database) \<noteq> []"
  using nameless_seedUsers by simp

subsection \<open>Invariants of a run\<close>

lemma client_sql_Inl: "client_sql env op stmt db = (Inl e, db') \<Longrightarrow> db' = db"
  by (auto simp: client_sql_def split: option.splits sum.splits)

lemma settle_snd:
  "snd (settle env t d) =
     (case snd t of Inl e \<Rightarrow> d | Inr stmt \<Rightarrow> snd (client_sql env (fst t) stmt d))"
  by (simp add: settle_def split: sum.splits)

lemma drain_invariant:
  assumes "P db" and "\<And>t d. t \<in> set ts \<Longrightarrow> P d \<Longrightarrow> P (snd (settle env t d))"
  shows "P (fst (drain env ts db))"
  using assms
proof (induction ts arbitrary: db)
  case Nil
  then show ?case by simp
next
  case (Cons t ts)
  obtain r db' where s: "settle env t db = (r, db')" by (cases "settle env t db")
  with Cons.prems(2) [of t db] Cons.prems(1) have "P db'" by simp
  then have "P (fst (drain env ts db'))"
    by (rule Cons.IH) (simp add: Cons.prems(2))
  with s show ?case by (cases "drain env ts db'") simp
qed

lemma promise_all_invariant:
  assumes "P db" and "\<And>t d. t \<in> set ts \<Longrightarrow> P d \<Longrightarrow> P (snd (settle env t d))"
  shows "P (db_after (promise_all env ts db))"
  using assms
proof (induction ts arbitrary: db)
  case Nil
  then show ?case by (simp add: return_def)
next
  case (Cons t ts)
  obtain r db' where s: "settle env t db = (r, db')" by (cases "settle env t db")
  with Cons.prems(2) [of t db] Cons.prems(1) have P': "P db'" by simp
  show ?case
  proof (cases r)
    case (Inl e)
    with s P' show ?thesis by simp
  next
    case (Inr v)
    from P' have "P (db_after (promise_all env ts db'))"
      by (rule Cons.IH) (simp add: Cons.prems(2))
    with s Inr show ?thesis by (simp add: Let_def)
  qed
qed

lemma await_sql_return_db_after:
  "db_after (await_sql env op stmt db return) = snd (client_sql env op stmt db)"
  by (cases "client_sql env op stmt db")
    (auto simp: await_sql_def console_log_def return_def split: sum.splits)

lemma await_sql_db_after:
  "db_after (await_sql env op stmt db k) =
     (case fst (client_sql env op stmt db) of
        Inl e \<Rightarrow> snd (client_sql env op stmt db)
      | Inr r \<Rightarrow> db_after (k r (snd (client_sql env op stmt db))))"
  by (cases "client_sql env op stmt db")
    (auto simp: await_sql_def console_log_def split: sum.splits)

lemma schema_init_invariant:
  assumes "P db"
    and "\<And>op stmt d. (op, stmt) \<in> set (schema_stmts p) \<Longrightarrow> P d \<Longrightarrow> P (snd (client_sql env op stmt d))"
  shows "P (db_after (schema_init env p db))"
proof (cases p)
  case Users
  have 1: "P (snd (client_sql env (OpExtension Users) CreateExtension db))"
    using assms Users by simp
  have 2: "P (snd (client_sql env (OpCreate Users) CreateUsers
      (snd (client_sql env (OpExtension Users) CreateExtension db))))"
    using assms(2) [OF _ 1] Users by simp
  from 1 2 Users show ?thesis
    by (simp add: await_sql_db_after await_sql_return_db_after return_def split: sum.splits)
next
  case Customers
  have 1: "P (snd (client_sql env (OpExtension Customers) CreateExtension db))"
    using assms Customers by simp
  have 2: "P (snd (client_sql env (OpCreate Customers) CreateCustomers
      (snd (client_sql env (OpExtension Customers) CreateExtension db))))"
    using assms(2) [OF _ 1] Customers by simp
  from 1 2 Customers show ?thesis
    by (simp add: await_sql_db_after await_sql_return_db_after return_def split: sum.splits)
next
  case Invoices
  have 1: "P (snd (client_sql env (OpExtension Invoices) CreateExtension db))"
    using assms Invoices by simp
  have 2: "P (snd (client_sql env (OpCreate Invoices) CreateInvoices
      (snd (client_sql env (OpExtension Invoices) CreateExtension db))))"
    using assms(2) [OF _ 1] Invoices by simp
  from 1 2 Invoices show ?thesis
    by (simp add: await_sql_db_after await_sql_return_db_after return_def split: sum.splits)
next
  case Revenue
  with assms show ?thesis
    by (simp add: await_sql_return_db_after)
qed

lemma batch_task_stmt:
  assumes "t \<in> set (batch env p (bodies p env data))" and "snd t = Inr stmt"
  shows "(fst t, stmt) \<in> phase_stmts env data p"
proof -
  let ?bs = "bodies p env data"
  from assms(1) have "t \<in> set (zip (map (OpInsert p) [0..<length ?bs]) ?bs)"
    by (simp add: set_batch)
  then obtain i where i: "i < length ?bs" and t: "t = (OpInsert p i, ?bs ! i)"
    by (auto simp: set_zip)
  with assms(2) show ?thesis by (auto simp: phase_stmts_def)
qed

lemma settle_step:
  assumes step: "\<And>op stmt d. (op, stmt) \<in> phase_stmts env data p \<Longrightarrow> P d
      \<Longrightarrow> P (snd (client_sql env op stmt d))"
    and "t \<in> set (batch env p (bodies p env data))" and "P d"
  shows "P (snd (settle env t d))"
proof (cases "snd t")
  case (Inl e)
  with assms(3) show ?thesis by (simp add: settle_snd)
next
  case (Inr stmt)
  from batch_task_stmt [OF assms(2) Inr] assms(3) have "P (snd (client_sql env (fst t) stmt d))"
    by (rule step)
  with Inr show ?thesis by (simp add: settle_snd)
qed

lemma load_db_after:
  "db_after (load env p bs db) =
     (case result (schema_init env p db) of
        Inl e \<Rightarrow> db_after (schema_init env p db)
      | Inr ct \<Rightarrow> db_after (promise_all env (batch env p bs) (db_after (schema_init env p db))))"
  by (cases rule: load_cases [where env = env and p = p and db = db and bs = bs])
    (simp_all add: load_schema_failed load_batch_failed load_ok)

lemma load_pending_subset:
  "set (pending (load env p bs db)) \<subseteq> set (batch env p bs)"
  using promise_all_pending_tasks [of env "batch env p bs"]
  by (cases rule: load_cases [where env = env and p = p and db = db and bs = bs])
    (simp_all add: load_schema_failed load_batch_failed load_ok)

lemma seed_invariant:
  assumes "P db"
    and step: "\<And>op stmt d. (op, stmt) \<in> phase_stmts env data p \<Longrightarrow> P d
      \<Longrightarrow> P (snd (client_sql env op stmt d))"
  shows "P (db_after (seed p env data db))"
    and "P (fst (drain env (pending (seed p env data db)) (db_after (seed p env data db))))"
proof -
  have S: "P (db_after (schema_init env p db))"
    using assms(1)
    by (rule schema_init_invariant) (rule step, simp_all add: phase_stmts_def)
  have B: "P (db_after (promise_all env (batch env p (bodies p env data))
      (db_after (schema_init env p db))))"
    using S by (rule promise_all_invariant) (rule settle_step [where P = P, OF step])
  from S B show a: "P (db_after (seed p env data db))"
    by (simp add: seed_load load_db_after split: sum.splits)
  show "P (fst (drain env (pending (seed p env data db)) (db_after (seed p env data db))))"
    using a
  proof (rule drain_invariant)
    fix t d
    assume "t \<in> set (pending (seed p env data db))" and d: "P d"
    with load_pending_subset [of env p "bodies p env data" db]
    have "t \<in> set (batch env p (bodies p env data))" by (auto simp: seed_load)
    from settle_step [where P = P, OF step this d] show "P (snd (settle env t d))" .
  qed
qed

lemma run_phases_invariant:
  assumes "P db"
    and step: "\<And>op stmt d. \<exists>p \<in> set ps. (op, stmt) \<in> phase_stmts env data p \<Longrightarrow> P d
      \<Longrightarrow> P (snd (client_sql env op stmt d))"
  shows "P (db_after (run_phases env data ps db))
       \<and> P (fst (drain env (pending (run_phases env data ps db))
               (db_after (run_phases env data ps db))))"
  using assms
proof (induction ps arbitrary: db)
  case Nil
  then show ?case
    by (simp add: client_end_def console_log_def return_def split: option.splits)
next
  case (Cons p ps)
  let ?L = "seed p env data db"
  have stepp: "P (snd (client_sql env op stmt d))"
    if "(op, stmt) \<in> phase_stmts env data p" and "P d" for op stmt d
    using Cons.prems(2) [of op stmt d] that by auto
  have L: "P (db_after ?L)" and D: "P (fst (drain env (pending ?L) (db_after ?L)))"
    using seed_invariant [where P = P, OF Cons.prems(1) stepp] by blast+
  show ?case
  proof (cases "result ?L")
    case (Inl e)
    with L D show ?thesis by (simp add: await_call_Inl rejected_simps)
  next
    case (Inr v)
    have "P (db_after (run_phases env data ps (db_after ?L)))
        \<and> P (fst (drain env (pending (run_phases env data ps (db_after ?L)))
               (db_after (run_phases env data ps (db_after ?L)))))"
      using L
    proof (rule Cons.IH)
      fix op stmt d
      assume "\<exists>p \<in> set ps. (op, stmt) \<in> phase_stmts env data p" and "P d"
      then show "P (snd (client_sql env op stmt d))"
        using Cons.prems(2) [of op stmt d] by auto
    qed
    with Inr show ?thesis by (simp add: await_call_Inr)
  qed
qed

lemma main_catch_db:
  "fst (main_catch env data db) =
     (if fault env OpConnect = None
      then fst (drain env (pending (run_phases env data [Users, Customers, Invoices, Revenue] db))
             (db_after (run_phases env data [Users, Customers, Invoices, Revenue] db)))
      else db)"
proof (cases "fault env OpConnect")
  case None
  show ?thesis
  proof (cases "result (main env data db)")
    case (Inl e)
    with None show ?thesis
      by (simp add: main_catch_rejected) (simp add: main_connected console_log_def)
  next
    case (Inr v)
    with main_pending_fulfilled [OF Inr] None show ?thesis
      by (simp add: main_catch_fulfilled) (simp add: main_connected console_log_def)
  qed
next
  case (Some e)
  then have "result (main env data db) = Inl e" by (simp add: main_connect_failed)
  from main_catch_rejected [OF this] Some show ?thesis
    by (simp add: main_connect_failed)
qed

lemma main_db_after:
  "db_after (main env data db) =
     (if fault env OpConnect = None
      then db_after (run_phases env data [Users, Customers, Invoices, Revenue] db)
      else db)"
  by (cases "fault env OpConnect") (simp_all add: main_connected main_connect_failed console_log_def)

lemma main_invariant:
  assumes "P db"
    and step: "\<And>op stmt d p. (op, stmt) \<in> phase_stmts env data p \<Longrightarrow> P d
      \<Longrightarrow> P (snd (client_sql env op stmt d))"
  shows "P (db_after (main env data db))" and "P (fst (main_catch env data db))"
proof -
  have "P (db_after (run_phases env data [Users, Customers, Invoices, Revenue] db))
      \<and> P (fst (drain env (pending (run_phases env data [Users, Customers, Invoices, Revenue] db))
               (db_after (run_phases env data [Users, Customers, Invoices, Revenue] db))))"
    using assms(1) by (rule run_phases_invariant) (blast intro: step)
  with assms(1) show "P (db_after (main env data db))" and "P (fst (main_catch env data db))"
    by (simp_all add: main_catch_db main_db_after)
qed

subsection \<open>What one statement does\<close>

lemma insert_user_Inr:
  assumes "insert_user i n e p db = Inr (r, db')"
  shows "\<exists>rows k n' e' p'. users_table db = Some rows \<and> i = Some k
      \<and> varchar 255 n = Inr (Some n') \<and> e = Some e' \<and> p = Some p'
      \<and> (if k \<in> set (map u_id rows) then r = ConflictSkipped \<and> db' = db
         else r = Inserted \<and> e' \<notin> set (map u_email rows)
           \<and> db' = db\<lparr>users_table :=
                Some (rows @ [\<lparr>u_id = k, u_name = n', u_email = e', u_password = p'\<rparr>])\<rparr>)"
  using assms
  by (auto simp: insert_user_def and_then_def not_null_def
      split: option.splits sum.splits if_splits)

lemma insert_customer_Inr:
  assumes "insert_customer i n e u db = Inr (r, db')"
  shows "\<exists>rows k n' e' u'. customers_table db = Some rows \<and> i = Some k
      \<and> varchar 255 n = Inr (Some n') \<and> varchar 255 e = Inr (Some e')
      \<and> varchar 255 u = Inr (Some u')
      \<and> (if k \<in> set (map c_id rows) then r = ConflictSkipped \<and> db' = db
         else r = Inserted
           \<and> db' = db\<lparr>customers_table :=
                Some (rows @ [\<lparr>c_id = k, c_name = n', c_email = e', c_image_url = u'\<rparr>])\<rparr>)"
  using assms
  by (auto simp: insert_customer_def and_then_def not_null_def
      split: option.splits sum.splits if_splits)

lemma insert_invoice_Inr:
  assumes "insert_invoice g c a s d db = Inr (r, db')"
  shows "\<exists>rows c' a' s' d'. invoices_table db = Some rows \<and> c = Some c'
      \<and> int4 a = Inr (Some a') \<and> varchar 255 s = Inr (Some s') \<and> d = Some d'
      \<and> (if g \<in> set (map i_id rows) then r = ConflictSkipped \<and> db' = db
         else r = Inserted
           \<and> db' = db\<lparr>invoices_table :=
                Some (rows @ [\<lparr>i_id = g, i_customer_id = c', i_amount = a', i_status = s',
                               i_date = d'\<rparr>])\<rparr>)"
  using assms
  by (auto simp: insert_invoice_def and_then_def not_null_def
      split: option.splits sum.splits if_splits)

lemma insert_revenue_Inr:
  assumes "insert_revenue m v db = Inr (r, db')"
  shows "\<exists>rows m' v'. revenue_table db = Some rows
      \<and> varchar 4 m = Inr (Some m') \<and> int4 v = Inr (Some v')
      \<and> (if m' \<in> set (map r_month rows) then r = ConflictSkipped \<and> db' = db
         else r = Inserted
           \<and> db' = db\<lparr>revenue_table := Some (rows @ [\<lparr>r_month = m', r_revenue = v'\<rparr>])\<rparr>)"
  using assms
  by (auto simp: insert_revenue_def and_then_def not_null_def
      split: option.splits sum.splits if_splits)

lemmas ids_defs = users_ids_def customers_ids_def invoices_ids_def revenue_months_def

lemma exec_sql_satisfied_after:
  "exec_sql g stmt db = Inr (r, db') \<Longrightarrow> satisfied g stmt db'"
  by (cases stmt)
    (auto simp: ids_defs split: if_splits
      dest!: insert_user_Inr insert_customer_Inr insert_invoice_Inr insert_revenue_Inr)

lemma exec_sql_satisfied_noop:
  "satisfied g stmt db \<Longrightarrow> exec_sql g stmt db = Inr (r, db') \<Longrightarrow> db' = db"
  by (cases stmt)
    (auto simp: ids_defs uuid_ossp_True_id split: if_splits option.splits sum.splits
      dest!: insert_user_Inr insert_customer_Inr insert_invoice_Inr insert_revenue_Inr)


lemma exec_sql_skipped_key:
  "exec_sql g stmt db = Inr (ConflictSkipped, db') \<Longrightarrow> key_present g stmt db \<and> db' = db"
  by (cases stmt)
    (auto simp: ids_defs split: if_splits option.splits sum.splits
      dest!: insert_user_Inr insert_customer_Inr insert_invoice_Inr insert_revenue_Inr)

lemma exec_sql_ids_mono:
  assumes "exec_sql g stmt db = Inr (r, db')"
  shows "users_ids db \<subseteq> users_ids db'" and "customers_ids db \<subseteq> customers_ids db'"
    and "invoices_ids db \<subseteq> invoices_ids db'" and "revenue_months db \<subseteq> revenue_months db'"
    and "uuid_ossp db \<Longrightarrow> uuid_ossp db'"
    and "users_table db \<noteq> None \<Longrightarrow> users_table db' \<noteq> None"
    and "customers_table db \<noteq> None \<Longrightarrow> customers_table db' \<noteq> None"
    and "invoices_table db \<noteq> None \<Longrightarrow> invoices_table db' \<noteq> None"
    and "revenue_table db \<noteq> None \<Longrightarrow> revenue_table db' \<noteq> None"
  using assms
  by (cases stmt;
      auto simp: ids_defs split: if_splits
        dest!: insert_user_Inr insert_customer_Inr insert_invoice_Inr insert_revenue_Inr)+

lemma exec_sql_satisfied_mono:
  assumes "satisfied g stmt db" and "exec_sql g' stmt' db = Inr (r, db')"
  shows "satisfied g stmt db'"
  using assms(1) exec_sql_ids_mono [OF assms(2)]
  by (cases stmt) (auto split: option.splits sum.splits)

lemma exec_sql_frame:
  assumes "exec_sql g stmt db = Inr (r, db')"
  shows "stmt_table stmt \<noteq> Some Users \<Longrightarrow> users_table db' = users_table db"
    and "stmt_table stmt \<noteq> Some Customers \<Longrightarrow> customers_table db' = customers_table db"
    and "stmt_table stmt \<noteq> Some Invoices \<Longrightarrow> invoices_table db' = invoices_table db"
    and "stmt_table stmt \<noteq> Some Revenue \<Longrightarrow> revenue_table db' = revenue_table db"
  using assms
  by (cases stmt;
      auto split: if_splits
        dest!: insert_user_Inr insert_customer_Inr insert_invoice_Inr insert_revenue_Inr)+


subsection \<open>Lifting to the client\<close>

lemma client_sql_cases [case_names fault error ok]:
  obtains
    (fault) e where "fault env op = Some e" and "client_sql env op stmt d = (Inl e, d)"
  | (error) e where "fault env op = None"
      and "exec_sql (uuid_generate_v4 env op) stmt d = Inl e"
      and "client_sql env op stmt d = (Inl e, d)"
  | (ok) r d' where "fault env op = None"
      and "exec_sql (uuid_generate_v4 env op) stmt d = Inr (r, d')"
      and "client_sql env op stmt d = (Inr r, d')"
proof (cases "fault env op")
  case (Some e)
  then show ?thesis by (intro fault [of e]) (simp_all add: client_sql_def)
next
  case None
  show ?thesis
  proof (cases "exec_sql (uuid_generate_v4 env op) stmt d")
    case (Inl e)
    with None show ?thesis by (intro error [of e]) (simp_all add: client_sql_def)
  next
    case (Inr x)
    obtain r d' where "x = (r, d')" by (cases x)
    with None Inr show ?thesis by (intro ok [of r d']) (simp_all add: client_sql_def)
  qed
qed

lemma client_sql_satisfied_mono:
  "satisfied g stmt d \<Longrightarrow> satisfied g stmt (snd (client_sql env op stmt' d))"
  by (cases rule: client_sql_cases [where env = env and op = op and stmt = stmt' and d = d])
    (auto dest: exec_sql_satisfied_mono)

lemma client_sql_satisfied_noop:
  "satisfied (uuid_generate_v4 env op) stmt d \<Longrightarrow> snd (client_sql env op stmt d) = d"
  by (cases rule: client_sql_cases [where env = env and op = op and stmt = stmt and d = d])
    (auto dest: exec_sql_satisfied_noop)

lemma client_sql_Inr_satisfied:
  "client_sql env op stmt d = (Inr r, d') \<Longrightarrow> satisfied (uuid_generate_v4 env op) stmt d'"
  by (cases rule: client_sql_cases [where env = env and op = op and stmt = stmt and d = d])
    (auto dest: exec_sql_satisfied_after)

lemma client_sql_frame:
  "stmt_table stmt \<noteq> Some Users
    \<Longrightarrow> users_table (snd (client_sql env op stmt d)) = users_table d"
  "stmt_table stmt \<noteq> Some Customers
    \<Longrightarrow> customers_table (snd (client_sql env op stmt d)) = customers_table d"
  "stmt_table stmt \<noteq> Some Invoices
    \<Longrightarrow> invoices_table (snd (client_sql env op stmt d)) = invoices_table d"
  "stmt_table stmt \<noteq> Some Revenue
    \<Longrightarrow> revenue_table (snd (client_sql env op stmt d)) = revenue_table d"
  by (cases rule: client_sql_cases [where env = env and op = op and stmt = stmt and d = d];
      auto dest: exec_sql_frame)+

lemma phase_stmts_table:
  assumes "(op, stmt) \<in> phase_stmts env data p"
  shows "stmt_table stmt = Some p \<or> stmt_table stmt = None"
proof -
  from assms consider "(op, stmt) \<in> set (schema_stmts p)"
    | i where "i < length (bodies p env data)" and "bodies p env data ! i = Inr stmt"
    by (auto simp: phase_stmts_def)
  then show ?thesis
  proof cases
    case 1
    then show ?thesis by (cases p) auto
  next
    case 2
    then have "Inr stmt \<in> set (bodies p env data)" by (metis nth_mem)
    then show ?thesis
      by (cases p) (auto simp: bcrypt_hash_call_def split: option.splits)
  qed
qed

subsection \<open>C9: schema initialisation is idempotent\<close>

lemma exec_sql_keeps_schema:
  assumes "exec_sql g stmt db = Inr (r, db')"
  shows "table_exists p db \<Longrightarrow> table_exists p db'"
    and "uuid_ossp db \<Longrightarrow> uuid_ossp db'"
  using assms
  by (cases stmt; cases p;
      auto simp: table_exists_def split: if_splits
        dest!: insert_user_Inr insert_customer_Inr insert_invoice_Inr insert_revenue_Inr)+

lemma client_sql_keeps_schema:
  shows "table_exists p d \<Longrightarrow> table_exists p (snd (client_sql env op stmt d))"
    and "uuid_ossp d \<Longrightarrow> uuid_ossp (snd (client_sql env op stmt d))"
  by (auto simp: client_sql_def exec_sql_keeps_schema split: option.splits sum.splits)

text \<open>
  C9. The schema initialisation of a table can be executed any number of times. Take any
  database in which the table exists (and, for the three tables whose id has a generated
  default, the extension is installed), whatever rows its tables hold: every execution whose
  DDL statements reach the server succeeds and returns exactly that database, schema and
  rows, and so does any sequence of such executions. That state is the one every successful
  execution establishes, and no statement the script sends takes it away again. And no
  execution at all, successful or not, of any table's schema initialisation changes the
  rows of a table that exists.
\<close>

theorem schema_init_idempotent:
  fixes d :: database
  assumes created: "table_exists p d"
    and extension: "p \<noteq> Revenue \<Longrightarrow> uuid_ossp d"
    and healthy: "\<forall>e \<in> set envs. fault e (OpExtension p) = None \<and> fault e (OpCreate p) = None"
  shows "(\<forall>e \<in> set envs.
            result (schema_init e p d) = Inr CommandOk \<and> db_after (schema_init e p d) = d)
         \<and> fold (\<lambda>e d. db_after (schema_init e p d)) envs d = d
         \<and> (\<forall>env (db :: database) r.
              result (schema_init env p db) = Inr r \<longrightarrow>
                r = CommandOk
                \<and> table_exists p (db_after (schema_init env p db))
                \<and> (p \<noteq> Revenue \<longrightarrow> uuid_ossp (db_after (schema_init env p db))))
         \<and> (\<forall>env op stmt (db :: database).
              (table_exists p db \<longrightarrow> table_exists p (snd (client_sql env op stmt db)))
              \<and> (uuid_ossp db \<longrightarrow> uuid_ossp (snd (client_sql env op stmt db))))
         \<and> (\<forall>env q (db :: database).
              (\<forall>rows. users_table db = Some rows \<longrightarrow>
                 users_table (db_after (schema_init env q db)) = Some rows)
              \<and> (\<forall>rows. customers_table db = Some rows \<longrightarrow>
                 customers_table (db_after (schema_init env q db)) = Some rows)
              \<and> (\<forall>rows. invoices_table db = Some rows \<longrightarrow>
                 invoices_table (db_after (schema_init env q db)) = Some rows)
              \<and> (\<forall>rows. revenue_table db = Some rows \<longrightarrow>
                 revenue_table (db_after (schema_init env q db)) = Some rows))"
proof -
  have again: "result (schema_init e p d) = Inr CommandOk \<and> db_after (schema_init e p d) = d"
    if "e \<in> set envs" for e
  proof -
    from healthy that have "fault e (OpExtension p) = None" and "fault e (OpCreate p) = None"
      by auto
    with created extension show ?thesis
      by (intro schema_init_again) auto
  qed
  have "set es \<subseteq> set envs \<Longrightarrow> fold (\<lambda>e d. db_after (schema_init e p d)) es d = d" for es
    by (induction es) (simp_all add: again)
  from this [of envs] have folded: "fold (\<lambda>e d. db_after (schema_init e p d)) envs d = d"
    by simp
  have ok: "r = CommandOk" if "result (schema_init env p db) = Inr r"
    for env and db :: database and r
    using that
    by (cases p; simp add: await_sql_def client_sql_def console_log_def return_def rejected_def
          split: option.splits if_splits sum.splits prod.splits)
  have first: "r = CommandOk \<and> table_exists p (db_after (schema_init env p db))
      \<and> (p \<noteq> Revenue \<longrightarrow> uuid_ossp (db_after (schema_init env p db)))"
    if "result (schema_init env p db) = Inr r" for env and db :: database and r
    using schema_init_post [OF that] ok [OF that] by simp
  from again folded first show ?thesis
    by (simp add: schema_init_keeps_rows client_sql_keeps_schema)
qed

theorem schema_init_idempotent_witness:
  "table_exists Users seeded_database \<and> uuid_ossp seeded_database
   \<and> result (schema_init quiet_env Users seeded_database) = Inr CommandOk
   \<and> db_after (schema_init quiet_env Users seeded_database) = seeded_database
   \<and> result (schema_init later_env Users seeded_database) = Inr CommandOk
   \<and> db_after (schema_init later_env Users seeded_database) = seeded_database
   \<and> fold (\<lambda>e d. db_after (schema_init e Users d)) [quiet_env, later_env] seeded_database
       = seeded_database
   \<and> users_table (db_after (schema_init later_env Users seeded_database))
       = Some [\<lparr>u_id = 1, u_name = ''Ann'', u_email = ''ann@x.com'',
                 u_password = ''$2b$10$saltplain''\<rparr>]
   \<and> result (schema_init quiet_env Users empty_database) = Inr CommandOk
   \<and> db_after (schema_init quiet_env Users empty_database)
       = empty_database\<lparr>uuid_ossp := True, users_table := Some []\<rparr>"
proof -
  have created: "table_exists Users seeded_database"
    by (simp add: table_exists_def seeded_database_def)
  have extension: "uuid_ossp seeded_database"
    by (simp add: seeded_database_def)
  have healthy: "\<forall>e \<in> set [quiet_env, later_env].
      fault e (OpExtension Users) = None \<and> fault e (OpCreate Users) = None"
    by (simp add: quiet_env_def later_env_def)
  have rows: "users_table seeded_database
      = Some [\<lparr>u_id = 1, u_name = ''Ann'', u_email = ''ann@x.com'',
                u_password = ''$2b$10$saltplain''\<rparr>]"
    by (simp add: seeded_database_def)
  have first: "result (schema_init quiet_env Users empty_database) = Inr CommandOk"
    by (simp add: run_defs cong: run_congs)
  have after: "db_after (schema_init quiet_env Users empty_database)
      = empty_database\<lparr>uuid_ossp := True, users_table := Some []\<rparr>"
    by (simp add: run_defs cong: run_congs)
  from schema_init_idempotent [of Users seeded_database "[quiet_env, later_env]",
      OF created extension healthy] created extension rows first after
  show ?thesis
    by simp
qed

subsection \<open>C5: a conflict on the declared key is skipped, any other error fails the batch\<close>







subsection \<open>C3: the invoices loader never skips\<close>

declare schema_init.simps [simp del]

lemma invoices_batch_tasks:
  assumes "t \<in> set (batch env Invoices (bodies Invoices env data))"
  shows "\<exists>i c a s d. i < length (invoices data) \<and> fst t = OpInsert Invoices i
      \<and> snd t = Inr (InsertInvoice c a s d)
      \<and> c = invoice_customer_id (invoices data ! i) \<and> a = invoice_amount (invoices data ! i)
      \<and> s = invoice_status (invoices data ! i) \<and> d = invoice_date (invoices data ! i)"
proof -
  let ?bs = "bodies Invoices env data"
  from assms have "t \<in> set (zip (map (OpInsert Invoices) [0..<length ?bs]) ?bs)"
    by (simp add: set_batch)
  then obtain i where "i < length ?bs" and "t = (OpInsert Invoices i, ?bs ! i)"
    by (auto simp: set_zip)
  then show ?thesis by auto
qed

lemma map_fst_zip_fun:
  "length xs = length ys \<Longrightarrow> map (\<lambda>t. f (fst t)) (zip xs ys) = map f xs"
  by (induction xs ys rule: list_induct2) simp_all

lemma batch_generated:
  "distinct (map (\<lambda>t. uuid_generate_v4 env (fst t)) (batch env p bs))
     = inj_on (\<lambda>i. uuid_generate_v4 env (OpInsert p i)) {..<length bs}"
proof -
  have "map (\<lambda>t. uuid_generate_v4 env (fst t)) (zip (map (OpInsert p) [0..<length bs]) bs)
      = map (uuid_generate_v4 env) (map (OpInsert p) [0..<length bs])"
    by (rule map_fst_zip_fun) simp
  also have "\<dots> = map (\<lambda>i. uuid_generate_v4 env (OpInsert p i)) [0..<length bs]"
    by (simp add: comp_def)
  finally have "distinct (map (\<lambda>t. uuid_generate_v4 env (fst t)) (batch env p bs))
      = distinct (map (\<lambda>i. uuid_generate_v4 env (OpInsert p i)) [0..<length bs])"
    by (simp only: batch_def distinct_map_settle_order)
  then show ?thesis
    by (simp add: distinct_map lessThan_atLeast0)
qed

lemma settle_invoice_fresh:
  assumes "snd t = Inr (InsertInvoice c a s d)"
    and "uuid_generate_v4 env (fst t) \<notin> invoices_ids db"
    and "settle env t db = (x, db')"
  shows "(\<exists>e. x = Inl e \<and> db' = db)
       \<or> (x = Inr Inserted
          \<and> invoices_ids db' = insert (uuid_generate_v4 env (fst t)) (invoices_ids db)
          \<and> row_count Invoices db' = Suc (row_count Invoices db))"
proof (cases rule: client_sql_cases [where env = env and op = "fst t"
      and stmt = "InsertInvoice c a s d" and d = db])
  case (fault e)
  with assms show ?thesis by (auto simp: settle_def)
next
  case (error e)
  with assms show ?thesis by (auto simp: settle_def)
next
  case (ok r d')
  from ok(2) have "insert_invoice (uuid_generate_v4 env (fst t)) c a s d db = Inr (r, d')"
    by simp
  from insert_invoice_Inr [OF this] assms(2) ok(3) assms(1,3) show ?thesis
    by (auto simp: settle_def invoices_ids_def row_count_def)
qed

lemma invoice_drain_never_skips:
  assumes "\<forall>t \<in> set ts. \<exists>c a s d. snd t = Inr (InsertInvoice c a s d)"
    and "distinct (map (\<lambda>t. uuid_generate_v4 env (fst t)) ts)"
    and "\<forall>t \<in> set ts. uuid_generate_v4 env (fst t) \<notin> invoices_ids db"
  shows "Settled op (Inr ConflictSkipped) \<notin> set (snd (drain env ts db))"
  using assms
proof (induction ts arbitrary: db)
  case Nil
  show ?case by simp
next
  case (Cons t ts)
  obtain x db' where s: "settle env t db = (x, db')" by (cases "settle env t db")
  obtain db'' evs where d: "drain env ts db' = (db'', evs)" by (cases "drain env ts db'")
  from Cons.prems(1) obtain c a s' dd where body: "snd t = Inr (InsertInvoice c a s' dd)"
    by auto
  from Cons.prems(3) have fresh_t: "uuid_generate_v4 env (fst t) \<notin> invoices_ids db" by simp
  from settle_invoice_fresh [OF body fresh_t s]
  have x: "x \<noteq> Inr ConflictSkipped"
    and ids: "invoices_ids db' \<subseteq> insert (uuid_generate_v4 env (fst t)) (invoices_ids db)"
    by auto
  have "\<forall>t' \<in> set ts. uuid_generate_v4 env (fst t') \<notin> invoices_ids db'"
  proof
    fix t' assume t': "t' \<in> set ts"
    with Cons.prems(2) have "uuid_generate_v4 env (fst t') \<noteq> uuid_generate_v4 env (fst t)"
      by (metis (mono_tags, lifting) distinct.simps(2) image_eqI list.simps(9) set_map)
    moreover from Cons.prems(3) t' have "uuid_generate_v4 env (fst t') \<notin> invoices_ids db"
      by simp
    ultimately show "uuid_generate_v4 env (fst t') \<notin> invoices_ids db'" using ids by auto
  qed
  with Cons.IH [of db'] Cons.prems(1,2) d
  have "Settled op (Inr ConflictSkipped) \<notin> set evs" by simp
  with s d x show ?case by auto
qed

lemma invoice_batch_all_inserted:
  assumes "\<forall>t \<in> set ts. \<exists>c a s d. snd t = Inr (InsertInvoice c a s d)"
    and "distinct (map (\<lambda>t. uuid_generate_v4 env (fst t)) ts)"
    and "\<forall>t \<in> set ts. uuid_generate_v4 env (fst t) \<notin> invoices_ids db"
    and "result (promise_all env ts db) = Inr rs"
  shows "map snd rs = replicate (length ts) Inserted
       \<and> row_count Invoices (db_after (promise_all env ts db))
           = row_count Invoices db + length ts"
  using assms
proof (induction ts arbitrary: db rs)
  case Nil
  then show ?case by (simp add: return_def)
next
  case (Cons t ts)
  obtain x db' where s: "settle env t db = (x, db')" by (cases "settle env t db")
  from Cons.prems(1) obtain c a s' dd where body: "snd t = Inr (InsertInvoice c a s' dd)"
    by auto
  from Cons.prems(3) have fresh_t: "uuid_generate_v4 env (fst t) \<notin> invoices_ids db" by simp
  from Cons.prems(4) s obtain v where x: "x = Inr v"
    by (cases x) simp_all
  with settle_invoice_fresh [OF body fresh_t s]
  have v: "v = Inserted"
    and ids: "invoices_ids db' = insert (uuid_generate_v4 env (fst t)) (invoices_ids db)"
    and cnt: "row_count Invoices db' = Suc (row_count Invoices db)"
    by auto
  from Cons.prems(4) s x obtain rs' where rs': "result (promise_all env ts db') = Inr rs'"
    and rs: "rs = (fst t, v) # rs'"
    by (cases "result (promise_all env ts db')") (auto simp: Let_def)
  have "\<forall>t' \<in> set ts. uuid_generate_v4 env (fst t') \<notin> invoices_ids db'"
  proof
    fix t' assume t': "t' \<in> set ts"
    with Cons.prems(2) have "uuid_generate_v4 env (fst t') \<noteq> uuid_generate_v4 env (fst t)"
      by (metis (mono_tags, lifting) distinct.simps(2) image_eqI list.simps(9) set_map)
    moreover from Cons.prems(3) t' have "uuid_generate_v4 env (fst t') \<notin> invoices_ids db"
      by simp
    ultimately show "uuid_generate_v4 env (fst t') \<notin> invoices_ids db'" using ids by auto
  qed
  with Cons.IH [of db' rs'] Cons.prems(1,2) rs'
  have "map snd rs' = replicate (length ts) Inserted
      \<and> row_count Invoices (db_after (promise_all env ts db'))
          = row_count Invoices db' + length ts"
    by simp
  with s x v rs cnt show ?case by (simp add: Let_def)
qed


lemma create_invoices_keeps_rows:
  "invoices_ids (snd (client_sql env op CreateInvoices d)) = invoices_ids d
   \<and> row_count Invoices (snd (client_sql env op CreateInvoices d)) = row_count Invoices d"
proof (cases rule: client_sql_cases [where env = env and op = op and stmt = CreateInvoices
      and d = d])
  case (fault e)
  then show ?thesis by simp
next
  case (error e)
  then show ?thesis by simp
next
  case (ok r d')
  from ok(2) have "d' = d \<or> (invoices_table d = None \<and> d' = d\<lparr>invoices_table := Some []\<rparr>)"
    by (simp split: if_splits)
  with ok(3) show ?thesis
    by (auto simp: invoices_ids_def row_count_def)
qed

lemma schema_stmt_keeps_invoices:
  assumes "(op, stmt) \<in> set (schema_stmts p)"
  shows "invoices_ids (snd (client_sql env op stmt d)) = invoices_ids d
       \<and> row_count Invoices (snd (client_sql env op stmt d)) = row_count Invoices d"
proof (cases "stmt = CreateInvoices")
  case True
  then show ?thesis by (simp only: create_invoices_keeps_rows)
next
  case False
  with assms have "stmt_table stmt \<noteq> Some Invoices"
    by (cases p) auto
  then have "invoices_table (snd (client_sql env op stmt d)) = invoices_table d"
    by (rule client_sql_frame)
  then show ?thesis by (simp add: invoices_ids_def row_count_def)
qed

lemma schema_init_keeps_invoices:
  "invoices_ids (db_after (schema_init env p db)) = invoices_ids db
   \<and> row_count Invoices (db_after (schema_init env p db)) = row_count Invoices db"
proof (rule schema_init_invariant
    [where P = "\<lambda>d. invoices_ids d = invoices_ids db
                  \<and> row_count Invoices d = row_count Invoices db"])
  show "invoices_ids db = invoices_ids db \<and> row_count Invoices db = row_count Invoices db"
    by simp
next
  fix op stmt d
  assume st: "(op, stmt) \<in> set (schema_stmts p)"
    and d: "invoices_ids d = invoices_ids db \<and> row_count Invoices d = row_count Invoices db"
  from schema_stmt_keeps_invoices [OF st, of env d] d
  show "invoices_ids (snd (client_sql env op stmt d)) = invoices_ids db
      \<and> row_count Invoices (snd (client_sql env op stmt d)) = row_count Invoices db"
    by simp
qed

lemma seedInvoices_load:
  "seedInvoices env (invoices data) db = load env Invoices (bodies Invoices env data) db"
  using seed_load [of Invoices env data db] by simp

lemma seedInvoices_all_inserted:
  fixes data :: fixtures
  assumes fresh: "\<forall>i < length (invoices data).
      uuid_generate_v4 env (OpInsert Invoices i) \<notin> invoices_ids db"
    and different: "inj_on (\<lambda>i. uuid_generate_v4 env (OpInsert Invoices i))
      {..<length (invoices data)}"
    and ok: "result (seedInvoices env (invoices data) db) = Inr (ct, rs)"
  shows "rs = replicate (length (invoices data)) Inserted
       \<and> row_count Invoices (db_after (seedInvoices env (invoices data) db))
           = row_count Invoices db + length (invoices data)"
proof -
  let ?bs = "bodies Invoices env data"
  let ?ts = "batch env Invoices ?bs"
  let ?S = "schema_init env Invoices db"
  let ?B = "promise_all env ?ts (db_after ?S)"
  have len: "length ?bs = length (invoices data)" by simp
  have tasks: "\<forall>t \<in> set ?ts. \<exists>c a s d. snd t = Inr (InsertInvoice c a s d)"
    using invoices_batch_tasks [of _ env data] by blast
  have dist: "distinct (map (\<lambda>t. uuid_generate_v4 env (fst t)) ?ts)"
    using different by (simp only: batch_generated len)
  have new: "\<forall>t \<in> set ?ts. uuid_generate_v4 env (fst t) \<notin> invoices_ids (db_after ?S)"
  proof
    fix t assume "t \<in> set ?ts"
    from invoices_batch_tasks [OF this] obtain i
      where "i < length (invoices data)" and "fst t = OpInsert Invoices i" by blast
    with fresh show "uuid_generate_v4 env (fst t) \<notin> invoices_ids (db_after ?S)"
      by (simp add: schema_init_keeps_invoices)
  qed
  show ?thesis
  proof (cases rule: load_cases [where env = env and p = Invoices and db = db and bs = ?bs])
    case (schema_failed e)
    with ok show ?thesis by (simp add: seedInvoices_load load_schema_failed)
  next
    case (batch_failed ct' e)
    with ok show ?thesis by (simp add: seedInvoices_load load_batch_failed)
  next
    case (ok ct' rs0)
    from invoice_batch_all_inserted [OF tasks dist new ok(2)]
    have all: "map snd rs0 = replicate (length ?ts) Inserted"
      and cnt: "row_count Invoices (db_after ?B) = row_count Invoices (db_after ?S) + length ?ts"
      by simp_all
    from ok \<open>result (seedInvoices env (invoices data) db) = Inr (ct, rs)\<close>
    have rs: "rs = List.map_filter (map_of rs0) (map (OpInsert Invoices) [0..<length ?bs])"
      and after: "db_after (seedInvoices env (invoices data) db) = db_after ?B"
      by (simp_all add: seedInvoices_load load_ok)
    have "x = Inserted" if "x \<in> set rs" for x
    proof -
      from that rs obtain op where "map_of rs0 op = Some x"
        by (auto simp: List.map_filter_def)
      then have "(op, x) \<in> set rs0" by (rule map_of_SomeD)
      then have "x \<in> set (map snd rs0)" by force
      with all show ?thesis by simp
    qed
    moreover have "length rs = length (invoices data)"
      using batch_results_length [OF ok(2)] rs by simp
    ultimately have "rs = replicate (length (invoices data)) Inserted"
      by (intro replicate_eqI) simp_all
    with cnt after show ?thesis
      by (simp add: schema_init_keeps_invoices length_batch)
  qed
qed

text \<open>
  C3. The insert of the invoices loader names no id; the id of the new row is the value
  the server's generator returns. Generated ids are new (not in the table, and different
  from one another): under that, whatever the invoices table holds, no insert of the
  loader is ever skipped, also not one that settles after the loader has thrown, and a
  run of the loader that fulfils has inserted every record: the table has grown by one
  row per fixture record.
\<close>

theorem invoices_never_skipped:
  fixes data :: fixtures
  assumes fresh: "\<forall>i < length (invoices data).
      uuid_generate_v4 env (OpInsert Invoices i) \<notin> invoices_ids db"
    and different: "inj_on (\<lambda>i. uuid_generate_v4 env (OpInsert Invoices i))
      {..<length (invoices data)}"
  shows "(\<forall>i. Settled (OpInsert Invoices i) (Inr ConflictSkipped)
            \<notin> set (events (seedInvoices env (invoices data) db)
                 @ snd (drain env (pending (seedInvoices env (invoices data) db))
                     (db_after (seedInvoices env (invoices data) db)))))
       \<and> (\<forall>ct rs. result (seedInvoices env (invoices data) db) = Inr (ct, rs)
            \<longrightarrow> rs = replicate (length (invoices data)) Inserted
              \<and> row_count Invoices (db_after (seedInvoices env (invoices data) db))
                  = row_count Invoices db + length (invoices data))"
proof -
  let ?bs = "bodies Invoices env data"
  let ?ts = "batch env Invoices ?bs"
  let ?S = "schema_init env Invoices db"
  let ?B = "promise_all env ?ts (db_after ?S)"
  have len: "length ?bs = length (invoices data)" by simp
  have tasks: "\<forall>t \<in> set ?ts. \<exists>c a s d. snd t = Inr (InsertInvoice c a s d)"
    using invoices_batch_tasks [of _ env data] by blast
  have dist: "distinct (map (\<lambda>t. uuid_generate_v4 env (fst t)) ?ts)"
    using different by (simp only: batch_generated len)
  have new: "\<forall>t \<in> set ?ts. uuid_generate_v4 env (fst t) \<notin> invoices_ids (db_after ?S)"
  proof
    fix t assume "t \<in> set ?ts"
    from invoices_batch_tasks [OF this] obtain i
      where "i < length (invoices data)" and "fst t = OpInsert Invoices i" by blast
    with fresh show "uuid_generate_v4 env (fst t) \<notin> invoices_ids (db_after ?S)"
      by (simp add: schema_init_keeps_invoices)
  qed
  have drained: "Settled (OpInsert Invoices i) (Inr ConflictSkipped)
      \<notin> set (events ?B @ snd (drain env (pending ?B) (db_after ?B)))" for i
    using invoice_drain_never_skips [OF tasks dist new, of "OpInsert Invoices i"]
      promise_all_drain [of env ?ts "db_after ?S"]
    by (metis snd_conv)
  have not_schema: "Settled (OpInsert Invoices i) r \<notin> set (events ?S)" for i r
    using schema_init_events_shape [of "Settled (OpInsert Invoices i) r" env Invoices db]
    by auto
  have a: "Settled (OpInsert Invoices i) (Inr ConflictSkipped)
      \<notin> set (events (seedInvoices env (invoices data) db)
           @ snd (drain env (pending (seedInvoices env (invoices data) db))
               (db_after (seedInvoices env (invoices data) db))))" for i
    using drained [of i] not_schema [of i]
    by (cases rule: load_cases [where env = env and p = Invoices and db = db and bs = ?bs])
      (simp_all add: seedInvoices_load load_schema_failed load_batch_failed load_ok)
  have b: "rs = replicate (length (invoices data)) Inserted
      \<and> row_count Invoices (db_after (seedInvoices env (invoices data) db))
          = row_count Invoices db + length (invoices data)"
    if ok: "result (seedInvoices env (invoices data) db) = Inr (ct, rs)" for ct rs
    using fresh different ok by (rule seedInvoices_all_inserted)
  from a b show ?thesis by blast
qed

lemma reseed_invoices:
  "seedInvoices later_env (invoices sample_data) seeded_database =
     \<lparr>result = Inr (CommandOk, [Inserted]),
      db_after = seeded_database
        \<lparr>invoices_table :=
           Some [\<lparr>i_id = 1000, i_customer_id = 77, i_amount = 15795, i_status = ''pending'',
                    i_date = (2022, 12, 6)\<rparr>,
                 \<lparr>i_id = 2000, i_customer_id = 77, i_amount = 15795, i_status = ''pending'',
                    i_date = (2022, 12, 6)\<rparr>]\<rparr>,
      events =
        [Settled (OpExtension Invoices) (Inr CommandOk),
         Settled (OpCreate Invoices) (Inr CommandOk), LogCreated Invoices,
         Settled (OpInsert Invoices 0) (Inr Inserted), LogSeeded Invoices 1],
      pending = []\<rparr>"
  by (simp add: run_defs sample_defs cong: run_congs)

theorem invoices_never_skipped_witness:
  "uuid_generate_v4 later_env (OpInsert Invoices 0) \<notin> invoices_ids seeded_database
   \<and> length (invoices sample_data) = 1
   \<and> result (seedInvoices later_env (invoices sample_data) seeded_database)
       = Inr (CommandOk, [Inserted])
   \<and> row_count Invoices seeded_database = 1
   \<and> row_count Invoices (db_after (seedInvoices later_env (invoices sample_data) seeded_database))
       = 2"
proof -
  have n: "length (invoices sample_data) = 1" by (simp add: sample_data_def)
  have g: "uuid_generate_v4 later_env (OpInsert Invoices 0) \<notin> invoices_ids seeded_database"
    by (simp add: later_env_def quiet_env_def seeded_database_def invoices_ids_def)
  have fresh: "\<forall>i < length (invoices sample_data).
      uuid_generate_v4 later_env (OpInsert Invoices i) \<notin> invoices_ids seeded_database"
    using g n by simp
  have different: "inj_on (\<lambda>i. uuid_generate_v4 later_env (OpInsert Invoices i))
      {..<length (invoices sample_data)}"
    by (simp add: n inj_on_def)
  have ok: "result (seedInvoices later_env (invoices sample_data) seeded_database)
      = Inr (CommandOk, [Inserted])"
    by (simp add: reseed_invoices)
  have before: "row_count Invoices seeded_database = 1"
    by (simp add: row_count_def seeded_database_def)
  from invoices_never_skipped [OF fresh different] ok
  have "row_count Invoices (db_after (seedInvoices later_env (invoices sample_data) seeded_database))
      = row_count Invoices seeded_database + length (invoices sample_data)"
    by blast
  with n g ok before show ?thesis by simp
qed

subsection \<open>C8: no referential integrity between invoices and customers\<close>

lemma insert_invoice_valid:
  assumes "valid_invoice ivc" and "invoices_table db = Some rows" and "g \<notin> set (map i_id rows)"
  shows "\<exists>row. insert_invoice g (invoice_customer_id ivc) (invoice_amount ivc)
             (invoice_status ivc) (invoice_date ivc) db
           = Inr (Inserted, db\<lparr>invoices_table := Some (rows @ [row])\<rparr>)
         \<and> i_id row = g \<and> Some (i_customer_id row) = invoice_customer_id ivc"
  using assms
  by (auto simp: valid_invoice_def insert_invoice_def and_then_def not_null_def
      split: option.splits sum.splits)

lemma invoice_batch_ok:
  assumes "invoices_table db = Some rows"
    and "\<forall>t \<in> set ts. fault env (fst t) = None
          \<and> (\<exists>ivc. valid_invoice ivc
                \<and> snd t = Inr (InsertInvoice (invoice_customer_id ivc) (invoice_amount ivc)
                              (invoice_status ivc) (invoice_date ivc)))"
    and "distinct (map (\<lambda>t. uuid_generate_v4 env (fst t)) ts)"
    and "\<forall>t \<in> set ts. uuid_generate_v4 env (fst t) \<notin> set (map i_id rows)"
  shows "result (promise_all env ts db) = Inr (map (\<lambda>t. (fst t, Inserted)) ts)
       \<and> (\<exists>new. db_after (promise_all env ts db) = db\<lparr>invoices_table := Some (rows @ new)\<rparr>
            \<and> list_all2 (\<lambda>row t. i_id row = uuid_generate_v4 env (fst t)
                  \<and> (\<forall>c a s d. snd t = Inr (InsertInvoice c a s d)
                        \<longrightarrow> c = Some (i_customer_id row))) new ts)"
  using assms
proof (induction ts arbitrary: db rows)
  case Nil
  have "db = db\<lparr>invoices_table := Some (rows @ [])\<rparr>"
    using Nil.prems(1) by (cases db) simp
  then show ?case by (auto simp: return_def)
next
  case (Cons t ts)
  let ?g = "uuid_generate_v4 env (fst t)"
  from Cons.prems(2) obtain ivc where nf: "fault env (fst t) = None"
    and valid: "valid_invoice ivc"
    and body: "snd t = Inr (InsertInvoice (invoice_customer_id ivc) (invoice_amount ivc)
        (invoice_status ivc) (invoice_date ivc))"
    by auto
  from Cons.prems(4) have g: "?g \<notin> set (map i_id rows)" by simp
  from insert_invoice_valid [OF valid Cons.prems(1) g] obtain row
    where ins: "insert_invoice ?g (invoice_customer_id ivc) (invoice_amount ivc)
          (invoice_status ivc) (invoice_date ivc) db
        = Inr (Inserted, db\<lparr>invoices_table := Some (rows @ [row])\<rparr>)"
      and row: "i_id row = ?g" "Some (i_customer_id row) = invoice_customer_id ivc"
    by blast
  let ?db' = "db\<lparr>invoices_table := Some (rows @ [row])\<rparr>"
  from nf body ins have s: "settle env t db = (Inr Inserted, ?db')"
    by (simp add: settle_def client_sql_def)
  have tbl: "invoices_table ?db' = Some (rows @ [row])" by simp
  have fresh': "\<forall>t' \<in> set ts. uuid_generate_v4 env (fst t') \<notin> set (map i_id (rows @ [row]))"
  proof
    fix t' assume t': "t' \<in> set ts"
    with Cons.prems(3) have "uuid_generate_v4 env (fst t') \<noteq> ?g"
      by (metis (mono_tags, lifting) distinct.simps(2) image_eqI list.simps(9) set_map)
    moreover from Cons.prems(4) t' have "uuid_generate_v4 env (fst t') \<notin> set (map i_id rows)"
      by simp
    ultimately show "uuid_generate_v4 env (fst t') \<notin> set (map i_id (rows @ [row]))"
      using row by simp
  qed
  from Cons.IH [OF tbl _ _ fresh'] Cons.prems(2,3)
  obtain new where res: "result (promise_all env ts ?db') = Inr (map (\<lambda>t. (fst t, Inserted)) ts)"
    and aft: "db_after (promise_all env ts ?db') = ?db'\<lparr>invoices_table := Some ((rows @ [row]) @ new)\<rparr>"
    and rel: "list_all2 (\<lambda>row t. i_id row = uuid_generate_v4 env (fst t)
                  \<and> (\<forall>c a s d. snd t = Inr (InsertInvoice c a s d)
                        \<longrightarrow> c = Some (i_customer_id row))) new ts"
    by auto
  have "result (promise_all env (t # ts) db) = Inr (map (\<lambda>t. (fst t, Inserted)) (t # ts))"
    using s res by (simp add: Let_def)
  moreover have "db_after (promise_all env (t # ts) db)
      = db\<lparr>invoices_table := Some (rows @ (row # new))\<rparr>"
    using s aft by (simp add: Let_def)
  moreover have "list_all2 (\<lambda>row t. i_id row = uuid_generate_v4 env (fst t)
                  \<and> (\<forall>c a s d. snd t = Inr (InsertInvoice c a s d)
                        \<longrightarrow> c = Some (i_customer_id row))) (row # new) (t # ts)"
    using rel row body by simp
  ultimately show ?case by blast
qed

lemma schema_init_healthy:
  assumes "fault env (OpExtension p) = None" and "fault env (OpCreate p) = None"
  shows "result (schema_init env p db) = Inr CommandOk"
    and "table_exists p (db_after (schema_init env p db))"
  using assms
  by (cases p;
      simp add: schema_init.simps await_sql_def client_sql_def console_log_def return_def
        table_exists_def)+

lemma schema_stmt_other_table:
  assumes "(op, stmt) \<in> set (schema_stmts p)" and "p \<noteq> q"
  shows "stmt_table stmt \<noteq> Some q"
  using assms by (cases p) auto

lemma schema_init_frame:
  "p \<noteq> Users \<Longrightarrow> users_table (db_after (schema_init env p db)) = users_table db"
  "p \<noteq> Customers \<Longrightarrow> customers_table (db_after (schema_init env p db)) = customers_table db"
  "p \<noteq> Invoices \<Longrightarrow> invoices_table (db_after (schema_init env p db)) = invoices_table db"
  "p \<noteq> Revenue \<Longrightarrow> revenue_table (db_after (schema_init env p db)) = revenue_table db"
proof -
  show "users_table (db_after (schema_init env p db)) = users_table db" if "p \<noteq> Users"
  proof (rule schema_init_invariant [where P = "\<lambda>d. users_table d = users_table db"])
    fix op stmt and d :: database
    assume a: "(op, stmt) \<in> set (schema_stmts p)" and b: "users_table d = users_table db"
    from schema_stmt_other_table [OF a that] have "stmt_table stmt \<noteq> Some Users" .
    from client_sql_frame(1) [OF this] b
    show "users_table (snd (client_sql env op stmt d)) = users_table db" by simp
  qed simp
  show "customers_table (db_after (schema_init env p db)) = customers_table db"
    if "p \<noteq> Customers"
  proof (rule schema_init_invariant [where P = "\<lambda>d. customers_table d = customers_table db"])
    fix op stmt and d :: database
    assume a: "(op, stmt) \<in> set (schema_stmts p)" and b: "customers_table d = customers_table db"
    from schema_stmt_other_table [OF a that] have "stmt_table stmt \<noteq> Some Customers" .
    from client_sql_frame(2) [OF this] b
    show "customers_table (snd (client_sql env op stmt d)) = customers_table db" by simp
  qed simp
  show "invoices_table (db_after (schema_init env p db)) = invoices_table db" if "p \<noteq> Invoices"
  proof (rule schema_init_invariant [where P = "\<lambda>d. invoices_table d = invoices_table db"])
    fix op stmt and d :: database
    assume a: "(op, stmt) \<in> set (schema_stmts p)" and b: "invoices_table d = invoices_table db"
    from schema_stmt_other_table [OF a that] have "stmt_table stmt \<noteq> Some Invoices" .
    from client_sql_frame(3) [OF this] b
    show "invoices_table (snd (client_sql env op stmt d)) = invoices_table db" by simp
  qed simp
  show "revenue_table (db_after (schema_init env p db)) = revenue_table db" if "p \<noteq> Revenue"
  proof (rule schema_init_invariant [where P = "\<lambda>d. revenue_table d = revenue_table db"])
    fix op stmt and d :: database
    assume a: "(op, stmt) \<in> set (schema_stmts p)" and b: "revenue_table d = revenue_table db"
    from schema_stmt_other_table [OF a that] have "stmt_table stmt \<noteq> Some Revenue" .
    from client_sql_frame(4) [OF this] b
    show "revenue_table (snd (client_sql env op stmt d)) = revenue_table db" by simp
  qed simp
qed

lemma list_all2_right_member:
  assumes "list_all2 R xs ys" and "y \<in> set ys"
  shows "\<exists>x \<in> set xs. R x y"
  using assms by (induction rule: list_all2_induct) auto

lemma batch_member:
  assumes "i < length bs"
  shows "(OpInsert p i, bs ! i) \<in> set (batch env p bs)"
proof -
  let ?ops = "map (OpInsert p) [0..<length bs]"
  from assms have "zip ?ops bs ! i \<in> set (zip ?ops bs)"
    by (intro nth_mem) simp
  moreover from assms have "zip ?ops bs ! i = (OpInsert p i, bs ! i)"
    by simp
  ultimately show ?thesis by (simp only: set_batch)
qed

text \<open>
  C8. The invoices loader is run by a client whose statements reach the server, on
  fixture records that fit the columns, with generated ids that are new. Then it
  fulfils with every record inserted; in particular a record whose customer_id is the id
  of no row of the customers table has its row in the invoices table afterwards, and the
  customers table is as it was: nothing checks the reference.
\<close>

theorem dangling_invoice_inserted:
  fixes data :: fixtures
  assumes healthy: "fault env (OpExtension Invoices) = None" "fault env (OpCreate Invoices) = None"
      "\<forall>i < length (invoices data). fault env (OpInsert Invoices i) = None"
    and valid: "\<forall>v \<in> set (invoices data). valid_invoice v"
    and fresh: "\<forall>i < length (invoices data).
      uuid_generate_v4 env (OpInsert Invoices i) \<notin> invoices_ids db"
    and different: "inj_on (\<lambda>i. uuid_generate_v4 env (OpInsert Invoices i))
      {..<length (invoices data)}"
    and dangling: "i < length (invoices data)"
      "invoice_customer_id (invoices data ! i) = Some c" "c \<notin> customers_ids db"
  shows "result (seedInvoices env (invoices data) db)
           = Inr (CommandOk, replicate (length (invoices data)) Inserted)
       \<and> (\<exists>rows. invoices_table (db_after (seedInvoices env (invoices data) db)) = Some rows
            \<and> (\<exists>row \<in> set rows. i_id row = uuid_generate_v4 env (OpInsert Invoices i)
                  \<and> i_customer_id row = c))
       \<and> customers_table (db_after (seedInvoices env (invoices data) db)) = customers_table db
       \<and> c \<notin> customers_ids (db_after (seedInvoices env (invoices data) db))"
proof -
  let ?bs = "bodies Invoices env data"
  let ?ts = "batch env Invoices ?bs"
  let ?S = "schema_init env Invoices db"
  let ?B = "promise_all env ?ts (db_after ?S)"
  have len: "length ?bs = length (invoices data)" by simp
  from schema_init_healthy [OF healthy(1,2), of db]
  have S: "result ?S = Inr CommandOk" and "table_exists Invoices (db_after ?S)" by simp_all
  then obtain rows0 where rows0: "invoices_table (db_after ?S) = Some rows0"
    by (auto simp: table_exists_def)
  then have ids0: "set (map i_id rows0) = invoices_ids db"
    using schema_init_keeps_invoices [of env Invoices db] by (simp add: invoices_ids_def)
  have tasks: "\<forall>t \<in> set ?ts. fault env (fst t) = None
      \<and> (\<exists>v. valid_invoice v
            \<and> snd t = Inr (InsertInvoice (invoice_customer_id v) (invoice_amount v)
                          (invoice_status v) (invoice_date v)))"
  proof
    fix t assume "t \<in> set ?ts"
    from invoices_batch_tasks [OF this] obtain j
      where j: "j < length (invoices data)" and op: "fst t = OpInsert Invoices j"
        and body: "snd t = Inr (InsertInvoice (invoice_customer_id (invoices data ! j))
            (invoice_amount (invoices data ! j)) (invoice_status (invoices data ! j))
            (invoice_date (invoices data ! j)))"
      by blast
    from j valid have "valid_invoice (invoices data ! j)" by simp
    with j op body healthy(3) show "fault env (fst t) = None
      \<and> (\<exists>v. valid_invoice v
            \<and> snd t = Inr (InsertInvoice (invoice_customer_id v) (invoice_amount v)
                          (invoice_status v) (invoice_date v)))"
      by auto
  qed
  have dist: "distinct (map (\<lambda>t. uuid_generate_v4 env (fst t)) ?ts)"
    using different by (simp only: batch_generated len)
  have new: "\<forall>t \<in> set ?ts. uuid_generate_v4 env (fst t) \<notin> set (map i_id rows0)"
  proof
    fix t assume "t \<in> set ?ts"
    from invoices_batch_tasks [OF this] obtain j
      where "j < length (invoices data)" and "fst t = OpInsert Invoices j" by blast
    with fresh show "uuid_generate_v4 env (fst t) \<notin> set (map i_id rows0)"
      by (simp only: ids0) simp
  qed
  from invoice_batch_ok [OF rows0 tasks dist new] obtain new_rows
    where B: "result ?B = Inr (map (\<lambda>t. (fst t, Inserted)) ?ts)"
      and after: "db_after ?B = (db_after ?S)\<lparr>invoices_table := Some (rows0 @ new_rows)\<rparr>"
      and rel: "list_all2 (\<lambda>row t. i_id row = uuid_generate_v4 env (fst t)
                  \<and> (\<forall>c a s d. snd t = Inr (InsertInvoice c a s d)
                        \<longrightarrow> c = Some (i_customer_id row))) new_rows ?ts"
    by blast
  let ?rs = "List.map_filter (map_of (map (\<lambda>t. (fst t, Inserted)) ?ts))
      (map (OpInsert Invoices) [0..<length ?bs])"
  from S B have out: "seedInvoices env (invoices data) db =
      \<lparr>result = Inr (CommandOk, ?rs), db_after = db_after ?B,
       events = events ?S @ LogCreated Invoices # events ?B @ [LogSeeded Invoices (length ?rs)],
       pending = []\<rparr>"
    by (simp only: seedInvoices_load load_ok)
  have "x = Inserted" if "x \<in> set ?rs" for x
  proof -
    from that obtain op where "map_of (map (\<lambda>t. (fst t, Inserted)) ?ts) op = Some x"
      by (auto simp: List.map_filter_def)
    then have "(op, x) \<in> set (map (\<lambda>t. (fst t, Inserted)) ?ts)" by (rule map_of_SomeD)
    then show ?thesis by auto
  qed
  moreover have "length ?rs = length (invoices data)"
    using batch_results_length [OF B] by (simp only: len)
  ultimately have rs: "?rs = replicate (length (invoices data)) Inserted"
    by (intro replicate_eqI) simp_all
  let ?t = "(OpInsert Invoices i, ?bs ! i)"
  have t: "?t \<in> set ?ts"
    using dangling(1) len by (intro batch_member) (simp only:)
  from list_all2_right_member [OF rel t] obtain row
    where row: "row \<in> set new_rows" and id: "i_id row = uuid_generate_v4 env (OpInsert Invoices i)"
      and cust: "\<forall>c a s d. ?bs ! i = Inr (InsertInvoice c a s d) \<longrightarrow> c = Some (i_customer_id row)"
    by auto
  from cust dangling(1,2) have c: "i_customer_id row = c" by simp
  have cust_tbl: "customers_table (db_after ?B) = customers_table db"
    using after schema_init_frame(2) [of Invoices env db] by simp
  from out rs after row id c cust_tbl dangling(3) show ?thesis
    by (auto simp: customers_ids_def)
qed

theorem dangling_invoice_inserted_witness:
  "valid_invoice (invoices sample_data ! 0)
   \<and> invoice_customer_id (invoices sample_data ! 0) = Some 77
   \<and> 77 \<notin> customers_ids seeded_database
   \<and> uuid_generate_v4 later_env (OpInsert Invoices 0) = 2000
   \<and> result (seedInvoices later_env (invoices sample_data) seeded_database)
       = Inr (CommandOk, [Inserted])
   \<and> (\<exists>rows. invoices_table (db_after (seedInvoices later_env (invoices sample_data)
          seeded_database)) = Some rows
        \<and> (\<exists>row \<in> set rows. i_id row = 2000 \<and> i_customer_id row = 77))
   \<and> 77 \<notin> customers_ids (db_after (seedInvoices later_env (invoices sample_data)
        seeded_database))"
proof -
  have n: "length (invoices sample_data) = 1" by (simp add: sample_data_def)
  have healthy: "fault later_env (OpExtension Invoices) = None"
    "fault later_env (OpCreate Invoices) = None"
    "\<forall>i < length (invoices sample_data). fault later_env (OpInsert Invoices i) = None"
    by (simp_all add: later_env_def quiet_env_def)
  have v: "valid_invoice (invoices sample_data ! 0)"
    by (simp add: sample_data_def valid_invoice_def int4_def varchar_def)
  then have valid: "\<forall>v \<in> set (invoices sample_data). valid_invoice v"
    by (simp add: sample_data_def)
  have g: "uuid_generate_v4 later_env (OpInsert Invoices 0) = 2000"
    by (simp add: later_env_def quiet_env_def)
  have fresh: "\<forall>i < length (invoices sample_data).
      uuid_generate_v4 later_env (OpInsert Invoices i) \<notin> invoices_ids seeded_database"
    by (simp add: n g) (simp add: seeded_database_def invoices_ids_def)
  have different: "inj_on (\<lambda>i. uuid_generate_v4 later_env (OpInsert Invoices i))
      {..<length (invoices sample_data)}"
    by (simp add: n inj_on_def)
  have i: "0 < length (invoices sample_data)" by (simp add: n)
  have c: "invoice_customer_id (invoices sample_data ! 0) = Some 77"
    by (simp add: sample_data_def)
  have d: "77 \<notin> customers_ids seeded_database"
    by (simp add: seeded_database_def customers_ids_def)
  from dangling_invoice_inserted [OF healthy valid fresh different i c d] n g v c d
  show ?thesis by simp
qed

subsection \<open>After a run that fulfils, none of its statements has anything left to do\<close>

lemma settle_satisfied_mono:
  "satisfied g stmt d \<Longrightarrow> satisfied g stmt (snd (settle env t d))"
  by (cases "snd t") (simp_all add: settle_snd client_sql_satisfied_mono)

lemma promise_all_Inr_satisfied:
  assumes "result (promise_all env ts db) = Inr rs" and "t \<in> set ts"
  shows "\<exists>stmt. snd t = Inr stmt
      \<and> satisfied (uuid_generate_v4 env (fst t)) stmt (db_after (promise_all env ts db))"
  using assms
proof (induction ts arbitrary: db rs)
  case Nil
  then show ?case by simp
next
  case (Cons t0 ts)
  obtain x db' where s: "settle env t0 db = (x, db')" by (cases "settle env t0 db")
  from Cons.prems(1) s obtain v where x: "x = Inr v" by (cases x) simp_all
  from Cons.prems(1) s x obtain rs' where rs': "result (promise_all env ts db') = Inr rs'"
    by (cases "result (promise_all env ts db')") (auto simp: Let_def)
  have after: "db_after (promise_all env (t0 # ts) db) = db_after (promise_all env ts db')"
    using s x by (simp add: Let_def)
  show ?case
  proof (cases "t = t0")
    case True
    from s x obtain stmt where body: "snd t0 = Inr stmt"
      and c: "client_sql env (fst t0) stmt db = (Inr v, db')"
      by (cases "snd t0") (auto simp: settle_def)
    from client_sql_Inr_satisfied [OF c]
    have "satisfied (uuid_generate_v4 env (fst t0)) stmt db'" .
    then have "satisfied (uuid_generate_v4 env (fst t0)) stmt (db_after (promise_all env ts db'))"
      by (rule promise_all_invariant) (rule settle_satisfied_mono)
    with True body after show ?thesis by simp
  next
    case False
    with Cons.prems(2) have "t \<in> set ts" by simp
    from Cons.IH [OF rs' this] after show ?thesis by simp
  qed
qed

lemma schema_init_Inr_satisfied:
  assumes "result (schema_init env p db) = Inr r" and "(op, stmt) \<in> set (schema_stmts p)"
  shows "satisfied g stmt (db_after (schema_init env p db))"
  using schema_init_post [OF assms(1)] assms(2)
  by (cases p) (auto simp: table_exists_def)

lemma seed_Inr_satisfied:
  assumes "result (seed p env data db) = Inr v" and "(op, stmt) \<in> phase_stmts env data p"
  shows "satisfied (uuid_generate_v4 env op) stmt (db_after (seed p env data db))"
proof -
  let ?bs = "bodies p env data"
  let ?S = "schema_init env p db"
  let ?B = "promise_all env (batch env p ?bs) (db_after ?S)"
  from assms(1) have L: "result (load env p ?bs db) = Inr v" by (simp add: seed_load)
  then obtain ct rs where S: "result ?S = Inr ct" and B: "result ?B = Inr rs"
    by (cases rule: load_cases [where env = env and p = p and db = db and bs = ?bs])
      (simp_all add: load_schema_failed load_batch_failed)
  then have after: "db_after (seed p env data db) = db_after ?B"
    by (simp add: seed_load load_ok)
  from assms(2) consider (ddl) "(op, stmt) \<in> set (schema_stmts p)"
    | (ins) i where "i < length ?bs" and "?bs ! i = Inr stmt" and "op = OpInsert p i"
    by (auto simp: phase_stmts_def)
  then show ?thesis
  proof cases
    case ddl
    from schema_init_Inr_satisfied [OF S ddl]
    have "satisfied (uuid_generate_v4 env op) stmt (db_after ?S)" .
    then have "satisfied (uuid_generate_v4 env op) stmt (db_after ?B)"
      by (rule promise_all_invariant) (rule settle_satisfied_mono)
    with after show ?thesis by simp
  next
    case ins
    from batch_member [OF ins(1), of p env]
    have "(OpInsert p i, ?bs ! i) \<in> set (batch env p ?bs)" .
    from promise_all_Inr_satisfied [OF B this] ins after show ?thesis by simp
  qed
qed

lemma run_phases_Inr:
  assumes "result (run_phases env data (p # ps) db) = Inr v"
  shows "\<exists>w. result (seed p env data db) = Inr w"
    and "result (run_phases env data ps (db_after (seed p env data db))) = Inr v"
    and "db_after (run_phases env data (p # ps) db)
          = db_after (run_phases env data ps (db_after (seed p env data db)))"
proof -
  from assms obtain w where w: "result (seed p env data db) = Inr w"
    by (cases "result (seed p env data db)") (simp_all add: await_call_Inl rejected_simps)
  then show "\<exists>w. result (seed p env data db) = Inr w" by blast
  from w assms show "result (run_phases env data ps (db_after (seed p env data db))) = Inr v"
    by (simp add: await_call_Inr)
  from w show "db_after (run_phases env data (p # ps) db)
      = db_after (run_phases env data ps (db_after (seed p env data db)))"
    by (simp add: await_call_Inr)
qed

lemma run_phases_Inr_satisfied:
  assumes "result (run_phases env data ps db) = Inr v"
    and "p \<in> set ps" and "(op, stmt) \<in> phase_stmts env data p"
  shows "satisfied (uuid_generate_v4 env op) stmt (db_after (run_phases env data ps db))"
  using assms
proof (induction ps arbitrary: db)
  case Nil
  then show ?case by simp
next
  case (Cons q ps)
  let ?d = "db_after (seed q env data db)"
  from run_phases_Inr [OF Cons.prems(1)] obtain w
    where w: "result (seed q env data db) = Inr w"
      and rest: "result (run_phases env data ps ?d) = Inr v"
      and after: "db_after (run_phases env data (q # ps) db) = db_after (run_phases env data ps ?d)"
    by blast
  show ?case
  proof (cases "p = q")
    case True
    with seed_Inr_satisfied [OF w] Cons.prems(3)
    have "satisfied (uuid_generate_v4 env op) stmt ?d" by simp
    then have "satisfied (uuid_generate_v4 env op) stmt (db_after (run_phases env data ps ?d))
        \<and> satisfied (uuid_generate_v4 env op) stmt
            (fst (drain env (pending (run_phases env data ps ?d))
               (db_after (run_phases env data ps ?d))))"
      by (rule run_phases_invariant) (rule client_sql_satisfied_mono)
    with after show ?thesis by (simp del: run_phases.simps)
  next
    case False
    with Cons.prems(2) have "p \<in> set ps" by simp
    from Cons.IH [OF rest this Cons.prems(3)] after show ?thesis
      by (simp del: run_phases.simps)
  qed
qed

lemma main_Inr_satisfied:
  assumes "result (main env data db) = Inr v" and "(op, stmt) \<in> phase_stmts env data p"
  shows "satisfied (uuid_generate_v4 env op) stmt (db_after (main env data db))"
proof -
  from assms(1) have c: "fault env OpConnect = None"
    by (cases "fault env OpConnect") (simp_all add: main_connect_failed)
  with assms(1) have r: "result (run_phases env data [Users, Customers, Invoices, Revenue] db) = Inr v"
    by (simp add: main_connected console_log_def)
  have "p \<in> set [Users, Customers, Invoices, Revenue]" by (cases p) simp_all
  from run_phases_Inr_satisfied [OF r this assms(2)] c show ?thesis
    by (simp del: run_phases.simps add: main_db_after)
qed

subsection \<open>C10: one revenue record, seeded twice\<close>

lemma jan_stmts:
  assumes "revenue data = [\<lparr>rev_month = Some ''Jan'', rev_revenue = Some 100\<rparr>]"
    and "(op, stmt) \<in> phase_stmts env data Revenue"
  shows "stmt = CreateRevenue \<or> stmt = InsertRevenue (Some ''Jan'') (Some 100)"
  using assms by (auto simp: phase_stmts_def)

lemma jan_insert_stmt:
  assumes "revenue data = [\<lparr>rev_month = Some ''Jan'', rev_revenue = Some 100\<rparr>]"
  shows "(OpInsert Revenue 0, InsertRevenue (Some ''Jan'') (Some 100))
      \<in> phase_stmts env data Revenue"
  using assms by (simp add: phase_stmts_def)

lemma jan_step:
  assumes data: "revenue data = [\<lparr>rev_month = Some ''Jan'', rev_revenue = Some 100\<rparr>]"
    and st: "(op, stmt) \<in> phase_stmts env data p"
    and d: "revenue_table d = None \<or> revenue_table d = Some []
      \<or> revenue_table d = Some [\<lparr>r_month = ''Jan'', r_revenue = 100\<rparr>]"
  shows "revenue_table (snd (client_sql env op stmt d)) = None
      \<or> revenue_table (snd (client_sql env op stmt d)) = Some []
      \<or> revenue_table (snd (client_sql env op stmt d))
           = Some [\<lparr>r_month = ''Jan'', r_revenue = 100\<rparr>]"
proof (cases "stmt_table stmt = Some Revenue")
  case False
  from client_sql_frame(4) [OF this] d show ?thesis by simp
next
  case True
  with phase_stmts_table [OF st] have "p = Revenue" by auto
  with jan_stmts [OF data] st
  have stmt: "stmt = CreateRevenue \<or> stmt = InsertRevenue (Some ''Jan'') (Some 100)"
    by blast
  show ?thesis
  proof (cases rule: client_sql_cases [where env = env and op = op and stmt = stmt and d = d])
    case (fault e)
    with d show ?thesis by simp
  next
    case (error e)
    with d show ?thesis by simp
  next
    case (ok r d')
    from stmt show ?thesis
    proof
      assume "stmt = CreateRevenue"
      with ok(2) have "d' = d \<or> d' = d\<lparr>revenue_table := Some []\<rparr>"
        by (auto split: if_splits)
      with ok(3) d show ?thesis by auto
    next
      assume "stmt = InsertRevenue (Some ''Jan'') (Some 100)"
      with ok(2) have "insert_revenue (Some ''Jan'') (Some 100) d = Inr (r, d')" by simp
      from insert_revenue_Inr [OF this] obtain rows m v
        where rows: "revenue_table d = Some rows"
          and m: "varchar 4 (Some ''Jan'') = Inr (Some m)" and v: "int4 (Some 100) = Inr (Some v)"
          and eff: "if m \<in> set (map r_month rows) then r = ConflictSkipped \<and> d' = d
            else r = Inserted
              \<and> d' = d\<lparr>revenue_table := Some (rows @ [\<lparr>r_month = m, r_revenue = v\<rparr>])\<rparr>"
        by blast
      from m have m': "m = ''Jan''" by (simp add: varchar_def)
      from v have v': "v = 100" by (simp add: int4_def)
      from rows d have "rows = [] \<or> rows = [\<lparr>r_month = ''Jan'', r_revenue = 100\<rparr>]"
        by auto
      with eff m' v' rows ok(3) show ?thesis by auto
    qed
  qed
qed

text \<open>
  C10. The revenue fixture is the single record \<^verbatim>\<open>{month: "Jan", revenue: 100}\<close>; the
  other fixtures and the environments of the two runs are arbitrary. Starting from the
  empty database, after the second run has finished the revenue table never has more than
  one row, and when at least one of the two runs fulfilled it is exactly the one row
  \<open>(Jan, 100)\<close>.
\<close>

theorem jan_seeded_twice:
  assumes data: "revenue data = [\<lparr>rev_month = Some ''Jan'', rev_revenue = Some 100\<rparr>]"
    and fulfilled: "result (main env1 data empty_database) = Inr ()
      \<or> result (main env2 data (fst (main_catch env1 data empty_database))) = Inr ()"
  shows "revenue_table (fst (main_catch env2 data (fst (main_catch env1 data empty_database))))
           = Some [\<lparr>r_month = ''Jan'', r_revenue = 100\<rparr>]
       \<and> row_count Revenue (fst (main_catch env2 data (fst (main_catch env1 data empty_database))))
           = 1"
proof -
  let ?P = "\<lambda>d. revenue_table d = None \<or> revenue_table d = Some []
      \<or> revenue_table d = Some [\<lparr>r_month = ''Jan'', r_revenue = 100\<rparr>]"
  let ?db1 = "fst (main_catch env1 data empty_database)"
  let ?db2 = "fst (main_catch env2 data ?db1)"
  let ?jan = "InsertRevenue (Some ''Jan'') (Some 100)"
  have "?P empty_database" by (simp add: empty_database_def)
  then have "?P ?db1"
    by (rule main_invariant(2)) (rule jan_step [OF data])
  then have P2: "?P ?db2"
    by (rule main_invariant(2)) (rule jan_step [OF data])
  have present: "satisfied g ?jan ?db2" for g
    using fulfilled
  proof
    assume ok: "result (main env1 data empty_database) = Inr ()"
    from main_Inr_satisfied [OF ok jan_insert_stmt [OF data]]
    have "satisfied g ?jan (db_after (main env1 data empty_database))"
      by (simp add: varchar_def)
    with ok have "satisfied g ?jan ?db1" by (simp add: main_catch_fulfilled)
    then show "satisfied g ?jan ?db2"
      by (rule main_invariant(2)) (rule client_sql_satisfied_mono)
  next
    assume ok: "result (main env2 data ?db1) = Inr ()"
    from main_Inr_satisfied [OF ok jan_insert_stmt [OF data]]
    have "satisfied g ?jan (db_after (main env2 data ?db1))"
      by (simp add: varchar_def)
    with ok show "satisfied g ?jan ?db2" by (simp add: main_catch_fulfilled)
  qed
  from present [of 0] have "''Jan'' \<in> revenue_months ?db2"
    by (simp add: varchar_def)
  with P2 show ?thesis
    by (auto simp: revenue_months_def row_count_def)
qed

theorem jan_seeded_twice_witness:
  "revenue sample_data = [\<lparr>rev_month = Some ''Jan'', rev_revenue = Some 100\<rparr>]
   \<and> result (main quiet_env sample_data empty_database) = Inr ()
   \<and> revenue_table
        (fst (main_catch later_env sample_data (fst (main_catch quiet_env sample_data empty_database))))
       = Some [\<lparr>r_month = ''Jan'', r_revenue = 100\<rparr>]
   \<and> row_count Revenue
        (fst (main_catch later_env sample_data (fst (main_catch quiet_env sample_data empty_database))))
       = 1"
proof -
  have data: "revenue sample_data = [\<lparr>rev_month = Some ''Jan'', rev_revenue = Some 100\<rparr>]"
    by (simp add: sample_data_def)
  have ok: "result (main quiet_env sample_data empty_database) = Inr ()"
    by (simp add: sample_main)
  then have "result (main quiet_env sample_data empty_database) = Inr ()
      \<or> result (main later_env sample_data (fst (main_catch quiet_env sample_data empty_database)))
          = Inr ()"
    by (rule disjI1)
  from jan_seeded_twice [OF data this] data ok show ?thesis by simp
qed

subsection \<open>C2: what a second run changes\<close>

lemma seed_frame:
  "p \<noteq> Users \<Longrightarrow> users_table (db_after (seed p env data db)) = users_table db"
  "p \<noteq> Customers \<Longrightarrow> customers_table (db_after (seed p env data db)) = customers_table db"
  "p \<noteq> Invoices \<Longrightarrow> invoices_table (db_after (seed p env data db)) = invoices_table db"
  "p \<noteq> Revenue \<Longrightarrow> revenue_table (db_after (seed p env data db)) = revenue_table db"
proof -
  show "users_table (db_after (seed p env data db)) = users_table db" if "p \<noteq> Users"
  proof (rule seed_invariant(1) [where P = "\<lambda>d. users_table d = users_table db"])
    fix op stmt and d :: database
    assume a: "(op, stmt) \<in> phase_stmts env data p" and b: "users_table d = users_table db"
    from phase_stmts_table [OF a] that have "stmt_table stmt \<noteq> Some Users" by auto
    from client_sql_frame(1) [OF this] b
    show "users_table (snd (client_sql env op stmt d)) = users_table db" by simp
  qed simp
  show "customers_table (db_after (seed p env data db)) = customers_table db" if "p \<noteq> Customers"
  proof (rule seed_invariant(1) [where P = "\<lambda>d. customers_table d = customers_table db"])
    fix op stmt and d :: database
    assume a: "(op, stmt) \<in> phase_stmts env data p" and b: "customers_table d = customers_table db"
    from phase_stmts_table [OF a] that have "stmt_table stmt \<noteq> Some Customers" by auto
    from client_sql_frame(2) [OF this] b
    show "customers_table (snd (client_sql env op stmt d)) = customers_table db" by simp
  qed simp
  show "invoices_table (db_after (seed p env data db)) = invoices_table db" if "p \<noteq> Invoices"
  proof (rule seed_invariant(1) [where P = "\<lambda>d. invoices_table d = invoices_table db"])
    fix op stmt and d :: database
    assume a: "(op, stmt) \<in> phase_stmts env data p" and b: "invoices_table d = invoices_table db"
    from phase_stmts_table [OF a] that have "stmt_table stmt \<noteq> Some Invoices" by auto
    from client_sql_frame(3) [OF this] b
    show "invoices_table (snd (client_sql env op stmt d)) = invoices_table db" by simp
  qed simp
  show "revenue_table (db_after (seed p env data db)) = revenue_table db" if "p \<noteq> Revenue"
  proof (rule seed_invariant(1) [where P = "\<lambda>d. revenue_table d = revenue_table db"])
    fix op stmt and d :: database
    assume a: "(op, stmt) \<in> phase_stmts env data p" and b: "revenue_table d = revenue_table db"
    from phase_stmts_table [OF a] that have "stmt_table stmt \<noteq> Some Revenue" by auto
    from client_sql_frame(4) [OF this] b
    show "revenue_table (snd (client_sql env op stmt d)) = revenue_table db" by simp
  qed simp
qed

lemma satisfied_any_generated:
  "\<forall>c a s dd. stmt \<noteq> InsertInvoice c a s dd \<Longrightarrow> satisfied g stmt d = satisfied g' stmt d"
  by (cases stmt) simp_all

lemma other_env_satisfied:
  assumes "p \<noteq> Invoices" and "(op, stmt2) \<in> phase_stmts env2 data p"
    and one: "\<And>op stmt. (op, stmt) \<in> phase_stmts env1 data p
      \<Longrightarrow> satisfied (uuid_generate_v4 env1 op) stmt d"
  shows "satisfied (uuid_generate_v4 env2 op) stmt2 d"
proof -
  from assms(2) consider (ddl) "(op, stmt2) \<in> set (schema_stmts p)"
    | (ins) i where "i < length (bodies p env2 data)" and "bodies p env2 data ! i = Inr stmt2"
        and "op = OpInsert p i"
    by (auto simp: phase_stmts_def)
  then show ?thesis
  proof cases
    case ddl
    then have "(op, stmt2) \<in> phase_stmts env1 data p" by (simp add: phase_stmts_def)
    from one [OF this] have "satisfied (uuid_generate_v4 env1 op) stmt2 d" .
    moreover from ddl have "\<forall>c a s dd. stmt2 \<noteq> InsertInvoice c a s dd"
      by (cases p) auto
    ultimately show ?thesis
      using satisfied_any_generated [of stmt2 "uuid_generate_v4 env1 op" d "uuid_generate_v4 env2 op"]
      by blast
  next
    case ins
    show ?thesis
    proof (cases p)
      case Users
      with ins have i: "i < length (users data)" by simp
      with ins Users obtain pw h2 where pw: "user_password (users data ! i) = Some pw"
        and s2: "stmt2 = InsertUser (user_id (users data ! i)) (user_name (users data ! i))
            (user_email (users data ! i)) (Some h2)"
        by (auto simp: nth_enumerate_eq bcrypt_hash_call_def split: option.splits)
      from i pw obtain h1 where "bodies Users env1 data ! i
          = Inr (InsertUser (user_id (users data ! i)) (user_name (users data ! i))
              (user_email (users data ! i)) (Some h1))"
        by (simp add: nth_enumerate_eq bcrypt_hash_call_def)
      with i have "(OpInsert Users i, InsertUser (user_id (users data ! i))
          (user_name (users data ! i)) (user_email (users data ! i)) (Some h1))
          \<in> phase_stmts env1 data Users"
        by (auto simp: phase_stmts_def)
      with one Users have "satisfied (uuid_generate_v4 env1 (OpInsert Users i))
          (InsertUser (user_id (users data ! i)) (user_name (users data ! i))
            (user_email (users data ! i)) (Some h1)) d"
        by blast
      with s2 show ?thesis by simp
    next
      case Customers
      with ins have "(op, stmt2) \<in> phase_stmts env1 data p"
        by (auto simp: phase_stmts_def)
      from one [OF this] have "satisfied (uuid_generate_v4 env1 op) stmt2 d" .
      moreover from ins Customers have "\<forall>c a s dd. stmt2 \<noteq> InsertInvoice c a s dd"
        by auto
      ultimately show ?thesis
        using satisfied_any_generated [of stmt2 "uuid_generate_v4 env1 op" d "uuid_generate_v4 env2 op"]
        by blast
    next
      case Invoices
      with assms(1) show ?thesis by simp
    next
      case Revenue
      with ins have "(op, stmt2) \<in> phase_stmts env1 data p"
        by (auto simp: phase_stmts_def)
      from one [OF this] have "satisfied (uuid_generate_v4 env1 op) stmt2 d" .
      moreover from ins Revenue have "\<forall>c a s dd. stmt2 \<noteq> InsertInvoice c a s dd"
        by auto
      ultimately show ?thesis
        using satisfied_any_generated [of stmt2 "uuid_generate_v4 env1 op" d "uuid_generate_v4 env2 op"]
        by blast
    qed
  qed
qed

lemma row_count_tables:
  "users_table d' = users_table d \<Longrightarrow> row_count Users d' = row_count Users d"
  "customers_table d' = customers_table d \<Longrightarrow> row_count Customers d' = row_count Customers d"
  "invoices_table d' = invoices_table d \<Longrightarrow> row_count Invoices d' = row_count Invoices d"
  "revenue_table d' = revenue_table d \<Longrightarrow> row_count Revenue d' = row_count Revenue d"
  by (simp_all add: row_count_def)

lemma second_run_invoices:
  fixes data :: fixtures
  assumes ok: "result (main env data db) = Inr ()"
    and fresh: "\<forall>i < length (invoices data).
      uuid_generate_v4 env (OpInsert Invoices i) \<notin> invoices_ids db"
    and different: "inj_on (\<lambda>i. uuid_generate_v4 env (OpInsert Invoices i))
      {..<length (invoices data)}"
  shows "row_count Invoices (db_after (main env data db))
      = row_count Invoices db + length (invoices data)"
proof -
  from ok have c: "fault env OpConnect = None"
    by (cases "fault env OpConnect") (simp_all add: main_connect_failed)
  with ok have r: "result (run_phases env data [Users, Customers, Invoices, Revenue] db) = Inr ()"
    by (simp add: main_connected console_log_def)
  let ?dU = "db_after (seed Users env data db)"
  let ?dC = "db_after (seed Customers env data ?dU)"
  let ?dI = "db_after (seed Invoices env data ?dC)"
  let ?dR = "db_after (seed Revenue env data ?dI)"
  note r1 = run_phases_Inr [OF r]
  note r2 = run_phases_Inr [OF r1(2)]
  note r3 = run_phases_Inr [OF r2(2)]
  note r4 = run_phases_Inr [OF r3(2)]
  from r4(2) have "db_after (run_phases env data [] ?dR) = ?dR"
    by (simp add: client_end_def console_log_def return_def split: option.splits)
  with r1(3) r2(3) r3(3) r4(3)
  have final: "db_after (run_phases env data [Users, Customers, Invoices, Revenue] db) = ?dR"
    by (simp only:)
  have "invoices_table ?dU = invoices_table db"
    by (rule seed_frame(3)) simp
  moreover have "invoices_table ?dC = invoices_table ?dU"
    by (rule seed_frame(3)) simp
  ultimately have "invoices_table ?dC = invoices_table db"
    by (simp only:)
  then have same: "invoices_ids ?dC = invoices_ids db"
    and cnt0: "row_count Invoices ?dC = row_count Invoices db"
    by (simp_all add: invoices_ids_def row_count_def)
  from r3(1) obtain w where "result (seed Invoices env data ?dC) = Inr w" by blast
  then have "result (seedInvoices env (invoices data) ?dC) = Inr (fst w, snd w)"
    by simp
  moreover from fresh same have "\<forall>i < length (invoices data).
      uuid_generate_v4 env (OpInsert Invoices i) \<notin> invoices_ids ?dC"
    by (simp only:)
  ultimately have "row_count Invoices (db_after (seedInvoices env (invoices data) ?dC))
      = row_count Invoices ?dC + length (invoices data)"
    using seedInvoices_all_inserted [OF _ different, of ?dC "fst w" "snd w"] by blast
  then have grown: "row_count Invoices ?dI = row_count Invoices ?dC + length (invoices data)"
    by simp
  have "invoices_table ?dR = invoices_table ?dI"
    by (rule seed_frame(3)) simp
  then have "row_count Invoices ?dR = row_count Invoices ?dI"
    by (rule row_count_tables)
  with grown cnt0 have "row_count Invoices ?dR = row_count Invoices db + length (invoices data)"
    by (simp only:)
  with final c show ?thesis
    by (simp add: main_db_after del: seed.simps run_phases.simps)
qed

text \<open>
  C2, as the script behaves. After a run that fulfilled, a second run on the same
  fixtures, whatever its environment and whether or not it fulfils, leaves the users,
  customers and revenue tables exactly as they were once everything it dispatched has
  settled: their row counts after two runs equal those after one. The invoices table is
  different: a second run that fulfils, with generated ids that are new, adds one more
  row per invoice fixture record.
\<close>

theorem second_run:
  fixes data :: fixtures
  assumes first: "result (main env1 data db) = Inr ()"
  shows "users_table (fst (main_catch env2 data (db_after (main env1 data db))))
           = users_table (db_after (main env1 data db))
       \<and> customers_table (fst (main_catch env2 data (db_after (main env1 data db))))
           = customers_table (db_after (main env1 data db))
       \<and> revenue_table (fst (main_catch env2 data (db_after (main env1 data db))))
           = revenue_table (db_after (main env1 data db))
       \<and> row_count Users (fst (main_catch env2 data (db_after (main env1 data db))))
           = row_count Users (db_after (main env1 data db))
       \<and> row_count Customers (fst (main_catch env2 data (db_after (main env1 data db))))
           = row_count Customers (db_after (main env1 data db))
       \<and> row_count Revenue (fst (main_catch env2 data (db_after (main env1 data db))))
           = row_count Revenue (db_after (main env1 data db))
       \<and> (result (main env2 data (db_after (main env1 data db))) = Inr ()
            \<and> (\<forall>i < length (invoices data). uuid_generate_v4 env2 (OpInsert Invoices i)
                  \<notin> invoices_ids (db_after (main env1 data db)))
            \<and> inj_on (\<lambda>i. uuid_generate_v4 env2 (OpInsert Invoices i)) {..<length (invoices data)}
          \<longrightarrow> row_count Invoices (fst (main_catch env2 data (db_after (main env1 data db))))
                = row_count Invoices (db_after (main env1 data db)) + length (invoices data))"
proof -
  let ?db1 = "db_after (main env1 data db)"
  let ?db2 = "fst (main_catch env2 data ?db1)"
  define P where "P = (\<lambda>d. (\<forall>p op stmt. p \<noteq> Invoices \<longrightarrow> (op, stmt) \<in> phase_stmts env2 data p
                \<longrightarrow> satisfied (uuid_generate_v4 env2 op) stmt d)
      \<and> users_table d = users_table ?db1 \<and> customers_table d = customers_table ?db1
      \<and> revenue_table d = revenue_table ?db1)"
  have sat1: "satisfied (uuid_generate_v4 env2 op) stmt ?db1"
    if "p \<noteq> Invoices" and "(op, stmt) \<in> phase_stmts env2 data p" for p op stmt
    using that
  proof (rule other_env_satisfied)
    fix op' stmt'
    assume "(op', stmt') \<in> phase_stmts env1 data p"
    with first show "satisfied (uuid_generate_v4 env1 op') stmt' ?db1"
      by (rule main_Inr_satisfied)
  qed
  have start: "P ?db1"
    unfolding P_def
  proof (intro conjI allI impI)
    fix p op stmt
    assume "p \<noteq> Invoices" and "(op, stmt) \<in> phase_stmts env2 data p"
    then show "satisfied (uuid_generate_v4 env2 op) stmt ?db1" by (rule sat1)
  qed (rule refl)+
  have step: "P (snd (client_sql env2 op stmt d))"
    if st: "(op, stmt) \<in> phase_stmts env2 data p" and d: "P d" for op stmt d p
  proof (cases "p = Invoices")
    case False
    with st d have "satisfied (uuid_generate_v4 env2 op) stmt d"
      unfolding P_def by blast
    then have "snd (client_sql env2 op stmt d) = d" by (rule client_sql_satisfied_noop)
    with d show ?thesis by (simp only:)
  next
    case True
    with phase_stmts_table [OF st]
    have t: "stmt_table stmt \<noteq> Some Users" "stmt_table stmt \<noteq> Some Customers"
      "stmt_table stmt \<noteq> Some Revenue"
      by auto
    have keep: "satisfied g s (snd (client_sql env2 op stmt d))" if "satisfied g s d" for g s
      using that by (rule client_sql_satisfied_mono)
    from d have "\<forall>p op' stmt'. p \<noteq> Invoices \<longrightarrow> (op', stmt') \<in> phase_stmts env2 data p
        \<longrightarrow> satisfied (uuid_generate_v4 env2 op') stmt' (snd (client_sql env2 op stmt d))"
      unfolding P_def using keep by blast
    moreover from d have du: "users_table d = users_table ?db1"
      and dc: "customers_table d = customers_table ?db1"
      and dr: "revenue_table d = revenue_table ?db1"
      unfolding P_def by blast+
    have "users_table (snd (client_sql env2 op stmt d)) = users_table ?db1"
      using client_sql_frame(1) [OF t(1), of env2 op d] du by (simp only:)
    moreover have "customers_table (snd (client_sql env2 op stmt d)) = customers_table ?db1"
      using client_sql_frame(2) [OF t(2), of env2 op d] dc by (simp only:)
    moreover have "revenue_table (snd (client_sql env2 op stmt d)) = revenue_table ?db1"
      using client_sql_frame(4) [OF t(3), of env2 op d] dr by (simp only:)
    ultimately show ?thesis unfolding P_def by blast
  qed
  have "P ?db2"
    by (rule main_invariant(2) [of P, OF start step])
  then have tables: "users_table ?db2 = users_table ?db1"
    "customers_table ?db2 = customers_table ?db1" "revenue_table ?db2 = revenue_table ?db1"
    unfolding P_def by blast+
  have inv: "row_count Invoices ?db2 = row_count Invoices ?db1 + length (invoices data)"
    if "result (main env2 data ?db1) = Inr ()"
      and "\<forall>i < length (invoices data). uuid_generate_v4 env2 (OpInsert Invoices i)
                  \<notin> invoices_ids ?db1"
      and "inj_on (\<lambda>i. uuid_generate_v4 env2 (OpInsert Invoices i)) {..<length (invoices data)}"
    using second_run_invoices [OF that] that(1) by (simp add: main_catch_fulfilled)
  have counts: "row_count Users ?db2 = row_count Users ?db1"
    "row_count Customers ?db2 = row_count Customers ?db1"
    "row_count Revenue ?db2 = row_count Revenue ?db1"
    using tables by (simp_all only: row_count_def phase.case)
  from tables counts inv show ?thesis
    by blast
qed


lemma reseed_main:
  "main later_env sample_data seeded_database =
     \<lparr>result = Inr (),
      db_after = seeded_database
        \<lparr>invoices_table :=
           Some [\<lparr>i_id = 1000, i_customer_id = 77, i_amount = 15795, i_status = ''pending'',
                    i_date = (2022, 12, 6)\<rparr>,
                 \<lparr>i_id = 2000, i_customer_id = 77, i_amount = 15795, i_status = ''pending'',
                    i_date = (2022, 12, 6)\<rparr>]\<rparr>,
      events =
        [Settled OpConnect (Inr CommandOk),
         Settled (OpExtension Users) (Inr CommandOk),
         Settled (OpCreate Users) (Inr CommandOk), LogCreated Users,
         Settled (OpInsert Users 0) (Inr ConflictSkipped), LogSeeded Users 1,
         Settled (OpExtension Customers) (Inr CommandOk),
         Settled (OpCreate Customers) (Inr CommandOk), LogCreated Customers,
         Settled (OpInsert Customers 0) (Inr ConflictSkipped), LogSeeded Customers 1,
         Settled (OpExtension Invoices) (Inr CommandOk),
         Settled (OpCreate Invoices) (Inr CommandOk), LogCreated Invoices,
         Settled (OpInsert Invoices 0) (Inr Inserted), LogSeeded Invoices 1,
         Settled (OpCreate Revenue) (Inr CommandOk), LogCreated Revenue,
         Settled (OpInsert Revenue 0) (Inr ConflictSkipped), LogSeeded Revenue 1,
         Settled OpEnd (Inr CommandOk)],
      pending = []\<rparr>"
  by (simp add: run_defs sample_defs cong: run_congs)

lemma sample_first_run:
  "db_after (main quiet_env sample_data empty_database) = seeded_database"
  "fst (main_catch quiet_env sample_data empty_database) = seeded_database"
  by (simp_all add: main_catch_def sample_main)

theorem second_run_witness:
  "result (main quiet_env sample_data empty_database) = Inr ()
   \<and> result (main later_env sample_data (db_after (main quiet_env sample_data empty_database)))
       = Inr ()
   \<and> uuid_generate_v4 later_env (OpInsert Invoices 0)
       \<notin> invoices_ids (db_after (main quiet_env sample_data empty_database))
   \<and> row_count Users (db_after (main quiet_env sample_data empty_database)) = 1
   \<and> row_count Users
        (fst (main_catch later_env sample_data (db_after (main quiet_env sample_data empty_database))))
       = 1
   \<and> row_count Customers
        (fst (main_catch later_env sample_data (db_after (main quiet_env sample_data empty_database))))
       = 1
   \<and> row_count Revenue
        (fst (main_catch later_env sample_data (db_after (main quiet_env sample_data empty_database))))
       = 1
   \<and> row_count Invoices (db_after (main quiet_env sample_data empty_database)) = 1
   \<and> row_count Invoices
        (fst (main_catch later_env sample_data (db_after (main quiet_env sample_data empty_database))))
       = 2"
proof -
  let ?db1 = "db_after (main quiet_env sample_data empty_database)"
  have first: "result (main quiet_env sample_data empty_database) = Inr ()"
    by (simp add: sample_main)
  have again: "result (main later_env sample_data ?db1) = Inr ()"
    by (simp add: sample_first_run reseed_main)
  have n: "length (invoices sample_data) = 1" by (simp add: sample_data_def)
  have g: "uuid_generate_v4 later_env (OpInsert Invoices 0) \<notin> invoices_ids ?db1"
    by (simp add: sample_first_run)
      (simp add: later_env_def quiet_env_def seeded_database_def invoices_ids_def)
  have fresh: "\<forall>i < length (invoices sample_data).
      uuid_generate_v4 later_env (OpInsert Invoices i) \<notin> invoices_ids ?db1"
    using g n by simp
  have different: "inj_on (\<lambda>i. uuid_generate_v4 later_env (OpInsert Invoices i))
      {..<length (invoices sample_data)}"
    by (simp add: n inj_on_def)
  have before: "row_count Users ?db1 = 1" "row_count Customers ?db1 = 1"
    "row_count Revenue ?db1 = 1" "row_count Invoices ?db1 = 1"
    by (simp_all add: sample_first_run) (simp_all add: seeded_database_def row_count_def)
  from second_run [OF first, of later_env] again fresh different
  have "row_count Users (fst (main_catch later_env sample_data ?db1)) = row_count Users ?db1"
    and "row_count Customers (fst (main_catch later_env sample_data ?db1))
      = row_count Customers ?db1"
    and "row_count Revenue (fst (main_catch later_env sample_data ?db1)) = row_count Revenue ?db1"
    and "row_count Invoices (fst (main_catch later_env sample_data ?db1))
      = row_count Invoices ?db1 + length (invoices sample_data)"
    by blast+
  with first again g before n show ?thesis by simp
qed

text \<open>
  The claim as stated fails for the invoices table: one invoice fixture record, seeded
  twice from the empty database, leaves two invoice rows, not one.
\<close>

theorem seeded_twice_counterexample:
  "row_count Invoices (fst (main_catch quiet_env sample_data empty_database)) = 1
   \<and> row_count Invoices
        (fst (main_catch later_env sample_data
               (fst (main_catch quiet_env sample_data empty_database)))) = 2
   \<and> row_count Invoices
        (fst (main_catch later_env sample_data
               (fst (main_catch quiet_env sample_data empty_database))))
       \<noteq> row_count Invoices (fst (main_catch quiet_env sample_data empty_database))"
proof -
  have "fst (main_catch later_env sample_data seeded_database)
      = db_after (main later_env sample_data seeded_database)"
    by (simp add: main_catch_def reseed_main)
  then have "row_count Invoices (fst (main_catch later_env sample_data seeded_database)) = 2"
    by (simp add: reseed_main row_count_def)
  moreover have "row_count Invoices seeded_database = 1"
    by (simp add: seeded_database_def row_count_def)
  ultimately show ?thesis by (simp add: sample_first_run)
qed

subsection \<open>C6: what is stored as a password\<close>

lemma users_stmt_shape:
  assumes "(op, stmt) \<in> phase_stmts env data Users"
  shows "stmt = CreateExtension \<or> stmt = CreateUsers
       \<or> (\<exists>i plaintext. i < length (users data)
            \<and> user_password (users data ! i) = Some plaintext
            \<and> stmt = InsertUser (user_id (users data ! i)) (user_name (users data ! i))
                (user_email (users data ! i))
                (Some (bcrypt_hash env plaintext 10 (bcrypt_salt env i))))"
proof -
  from assms consider (ddl) "(op, stmt) \<in> set (schema_stmts Users)"
    | (ins) i where "i < length (bodies Users env data)"
        and "bodies Users env data ! i = Inr stmt"
    by (auto simp: phase_stmts_def)
  then show ?thesis
  proof cases
    case ddl
    then show ?thesis by auto
  next
    case ins
    then have i: "i < length (users data)" by simp
    with ins(2) show ?thesis
      by (auto simp: nth_enumerate_eq bcrypt_hash_call_def split: option.splits)
  qed
qed

lemma hashed_step:
  assumes st: "(op, stmt) \<in> phase_stmts env data p"
    and d: "\<forall>row \<in> set (users_rows d). row \<in> set (users_rows db) \<or> hashed_from env data row"
  shows "\<forall>row \<in> set (users_rows (snd (client_sql env op stmt d))).
      row \<in> set (users_rows db) \<or> hashed_from env data row"
proof (cases "stmt_table stmt = Some Users")
  case False
  from client_sql_frame(1) [OF this, of env op d] d show ?thesis
    by (simp add: users_rows_def)
next
  case True
  with phase_stmts_table [OF st] have "p = Users" by auto
  with st have "(op, stmt) \<in> phase_stmts env data Users" by simp
  from users_stmt_shape [OF this] True consider (create) "stmt = CreateUsers"
    | (ins) i plaintext where "i < length (users data)"
        and "user_password (users data ! i) = Some plaintext"
        and "stmt = InsertUser (user_id (users data ! i)) (user_name (users data ! i))
                (user_email (users data ! i))
                (Some (bcrypt_hash env plaintext 10 (bcrypt_salt env i)))"
    by auto
  then show ?thesis
  proof cases
    case create
    show ?thesis
    proof (cases rule: client_sql_cases [where env = env and op = op and stmt = stmt and d = d])
      case (fault e)
      with d show ?thesis by simp
    next
      case (error e)
      with d show ?thesis by simp
    next
      case (ok r d')
      with create have "d' = d \<or> d' = d\<lparr>users_table := Some []\<rparr>"
        by (auto split: if_splits)
      with ok(3) d show ?thesis by (auto simp: users_rows_def)
    qed
  next
    case ins
    show ?thesis
    proof (cases rule: client_sql_cases [where env = env and op = op and stmt = stmt and d = d])
      case (fault e)
      with d show ?thesis by simp
    next
      case (error e)
      with d show ?thesis by simp
    next
      case (ok r d')
      with ins(3) have "insert_user (user_id (users data ! i)) (user_name (users data ! i))
          (user_email (users data ! i)) (Some (bcrypt_hash env plaintext 10 (bcrypt_salt env i))) d
        = Inr (r, d')"
        by simp
      from insert_user_Inr [OF this] obtain rows k n' e' p'
        where rows: "users_table d = Some rows" and k: "user_id (users data ! i) = Some k"
          and e': "user_email (users data ! i) = Some e'"
          and p': "Some (bcrypt_hash env plaintext 10 (bcrypt_salt env i)) = Some p'"
          and eff: "if k \<in> set (map u_id rows) then r = ConflictSkipped \<and> d' = d
            else r = Inserted \<and> e' \<notin> set (map u_email rows)
              \<and> d' = d\<lparr>users_table :=
                   Some (rows @ [\<lparr>u_id = k, u_name = n', u_email = e', u_password = p'\<rparr>])\<rparr>"
        by blast
      have new: "hashed_from env data \<lparr>u_id = k, u_name = n', u_email = e', u_password = p'\<rparr>"
        unfolding hashed_from_def using ins(1,2) k e' p'
        by (intro exI [of _ i] exI [of _ plaintext]) simp
      from eff have "d' = d \<or> users_rows d'
          = users_rows d @ [\<lparr>u_id = k, u_name = n', u_email = e', u_password = p'\<rparr>]"
        using rows by (auto simp: users_rows_def split: if_splits)
      with new d ok(3) show ?thesis by auto
    qed
  qed
qed

text \<open>
  C6. The bcrypt library is a parameter of the run, with its contract as hypotheses: a
  hash of cost 10 differs from the plaintext it was computed from, and
  \<open>bcrypt_compare\<close> accepts a plaintext against its own hash. Then every row that a
  whole run has added to the users table comes from a fixture record with that id and
  email, and what it stores as password is the bcrypt hash of that record's plaintext,
  computed with cost factor 10 and the salt drawn for that record; it is not the
  plaintext, and it verifies against the plaintext.
\<close>

theorem stored_password_is_hash:
  assumes differs: "\<forall>plaintext salt. bcrypt_hash env plaintext 10 salt \<noteq> plaintext"
    and verifies: "\<forall>plaintext salt.
      bcrypt_compare env plaintext (bcrypt_hash env plaintext 10 salt)"
    and added: "row \<in> set (users_rows (fst (main_catch env data db)))"
      "row \<notin> set (users_rows db)"
  shows "\<exists>i plaintext. i < length (users data)
      \<and> user_id (users data ! i) = Some (u_id row)
      \<and> user_email (users data ! i) = Some (u_email row)
      \<and> user_password (users data ! i) = Some plaintext
      \<and> u_password row = bcrypt_hash env plaintext 10 (bcrypt_salt env i)
      \<and> u_password row \<noteq> plaintext
      \<and> bcrypt_compare env plaintext (u_password row)"
proof -
  define P where "P = (\<lambda>d. \<forall>row \<in> set (users_rows d).
      row \<in> set (users_rows db) \<or> hashed_from env data row)"
  have start: "P db" unfolding P_def by blast
  have step: "P (snd (client_sql env op stmt d))"
    if "(op, stmt) \<in> phase_stmts env data p" and "P d" for op stmt d p
    using that unfolding P_def by (rule hashed_step)
  have "P (fst (main_catch env data db))"
    by (rule main_invariant(2) [of P, OF start step])
  with added have "hashed_from env data row" unfolding P_def by blast
  then obtain i plaintext where "i < length (users data)"
    and "user_id (users data ! i) = Some (u_id row)"
    and "user_email (users data ! i) = Some (u_email row)"
    and "user_password (users data ! i) = Some plaintext"
    and h: "u_password row = bcrypt_hash env plaintext 10 (bcrypt_salt env i)"
    unfolding hashed_from_def by blast
  moreover from h differs have "u_password row \<noteq> plaintext" by simp
  moreover from h verifies have "bcrypt_compare env plaintext (u_password row)" by simp
  ultimately show ?thesis by blast
qed


lemma stand_in_differs: "bcrypt_hash quiet_env plaintext 10 salt \<noteq> plaintext"
proof
  assume "bcrypt_hash quiet_env plaintext 10 salt = plaintext"
  then have "length (bcrypt_hash quiet_env plaintext 10 salt) = length plaintext"
    by simp
  then show False by (simp add: quiet_env_def)
qed

lemma stand_in_verifies:
  "bcrypt_compare quiet_env plaintext (bcrypt_hash quiet_env plaintext 10 salt)"
proof -
  have h: "bcrypt_hash quiet_env plaintext 10 salt = (''$2b$10$'' @ salt) @ plaintext"
    by (simp add: quiet_env_def)
  have c: "bcrypt_compare quiet_env plaintext stored
      = (drop (length stored - length plaintext) stored = plaintext)" for stored
    by (simp add: quiet_env_def)
  have "drop (length (xs @ plaintext) - length plaintext) (xs @ plaintext) = plaintext"
    for xs :: string
    by simp
  with h c show ?thesis by (simp only:)
qed

theorem stored_password_is_hash_witness:
  "(\<forall>plaintext salt. bcrypt_hash quiet_env plaintext 10 salt \<noteq> plaintext)
   \<and> (\<forall>plaintext salt.
        bcrypt_compare quiet_env plaintext (bcrypt_hash quiet_env plaintext 10 salt))
   \<and> users_rows (fst (main_catch quiet_env sample_data empty_database))
       = [\<lparr>u_id = 1, u_name = ''Ann'', u_email = ''ann@x.com'',
            u_password = ''$2b$10$saltplain''\<rparr>]
   \<and> users_rows empty_database = []
   \<and> user_password (users sample_data ! 0) = Some ''plain''
   \<and> (\<exists>i plaintext. i < length (users sample_data)
        \<and> user_password (users sample_data ! i) = Some plaintext
        \<and> ''$2b$10$saltplain'' = bcrypt_hash quiet_env plaintext 10 (bcrypt_salt quiet_env i)
        \<and> ''$2b$10$saltplain'' \<noteq> plaintext
        \<and> bcrypt_compare quiet_env plaintext ''$2b$10$saltplain'')"
proof -
  let ?row = "\<lparr>u_id = 1, u_name = ''Ann'', u_email = ''ann@x.com'',
      u_password = ''$2b$10$saltplain''\<rparr>"
  have differs: "\<forall>plaintext salt. bcrypt_hash quiet_env plaintext 10 salt \<noteq> plaintext"
    by (simp add: stand_in_differs)
  have verifies: "\<forall>plaintext salt.
      bcrypt_compare quiet_env plaintext (bcrypt_hash quiet_env plaintext 10 salt)"
    by (simp add: stand_in_verifies)
  have after: "users_rows (fst (main_catch quiet_env sample_data empty_database)) = [?row]"
    by (simp add: sample_first_run) (simp add: users_rows_def seeded_database_def)
  have before: "users_rows empty_database = []"
    by (simp add: users_rows_def empty_database_def)
  have added: "?row \<in> set (users_rows (fst (main_catch quiet_env sample_data empty_database)))"
    "?row \<notin> set (users_rows empty_database)"
    by (simp_all add: after before)
  have plain: "user_password (users sample_data ! 0) = Some ''plain''"
    by (simp add: sample_data_def)
  from stored_password_is_hash [OF differs verifies added]
  have "\<exists>i plaintext. i < length (users sample_data)
        \<and> user_password (users sample_data ! i) = Some plaintext
        \<and> ''$2b$10$saltplain'' = bcrypt_hash quiet_env plaintext 10 (bcrypt_salt quiet_env i)
        \<and> ''$2b$10$saltplain'' \<noteq> plaintext
        \<and> bcrypt_compare quiet_env plaintext ''$2b$10$saltplain''"
    by simp blast
  with differs verifies after before plain show ?thesis by blast
qed

end
